theory Spec2Isabelle
  imports Main
begin

section \<open>Shared data: the Pair struct and undefined behaviour as error values\<close>

text \<open>
  \<^verbatim>\<open>struct Pair { unsigned key; ValueType value; bool isEmpty = true; }\<close> is the element
  type of both arrays: the bucket array of the hash table and the heap array of the
  priority queue. \<^verbatim>\<open>new Pair<ValueType>[n]\<close> sets \<open>isEmpty\<close> and leaves \<open>key\<close> and
  \<open>value\<close> indeterminate; such a slot is \<open>None\<close> in the model, and a slot that has
  been written is \<open>Some p\<close>.

  \<^verbatim>\<open>unsigned\<close> values are \<open>nat\<close>. Where the code computes with them beyond small
  indices and sizes, the wrap-around at \<open>2 ^ 32\<close> is written out with \<open>u32\<close>: in
  \<^verbatim>\<open>key - change\<close> and \<^verbatim>\<open>key + change\<close>, in the probe sum \<^verbatim>\<open>index + i*i\<close> and in
  \<^verbatim>\<open>elementCount--\<close>.

  Undefined behaviour of the C++ is an error value of the model: an array access past
  the end, a read of a field that was never written, a dereferenced null pointer. The
  exception thrown by the constructors is \<open>RuntimeError\<close>.
\<close>

record 'v Pair =
  key :: nat
  val :: 'v
  isEmpty :: bool

datatype error = RuntimeError | OutOfBounds | Uninitialised | NullPointer

definition bind_e :: "error + 'a \<Rightarrow> ('a \<Rightarrow> error + 'b) \<Rightarrow> error + 'b" where
  "bind_e m f = (case m of Inl e \<Rightarrow> Inl e | Inr x \<Rightarrow> f x)"

definition u32 :: "nat \<Rightarrow> nat" where
  "u32 n = n mod 4294967296"

text \<open>\<^verbatim>\<open>table[i].isEmpty\<close>, and the test \<^verbatim>\<open>!table[i].isEmpty && key == table[i].key\<close>
  that guards every read of a bucket's key.\<close>

definition slot_isEmpty :: "'v Pair option \<Rightarrow> bool" where
  "slot_isEmpty s = (case s of None \<Rightarrow> True | Some p \<Rightarrow> isEmpty p)"

definition slot_holds :: "'v Pair option \<Rightarrow> nat \<Rightarrow> bool" where
  "slot_holds s k = (case s of None \<Rightarrow> False | Some p \<Rightarrow> \<not> isEmpty p \<and> k = key p)"

section \<open>HashTable\<close>

text \<open>The fields \<^verbatim>\<open>table\<close>, \<^verbatim>\<open>size\<close> and \<^verbatim>\<open>elementCount\<close>. Every bucket index the code
  computes is a remainder modulo \<^verbatim>\<open>size\<close>, hence inside the array as long as the array
  has \<^verbatim>\<open>size\<close> cells and \<^verbatim>\<open>size\<close> is positive, which holds from the constructor on;
  a moved-from table (\<^verbatim>\<open>size = 0\<close>) is not modelled.\<close>

record 'v HashTable =
  table :: "'v Pair option list"
  size_ht :: nat
  elementCount_ht :: nat

text \<open>\<^verbatim>\<open>isPrime\<close>: the loop \<^verbatim>\<open>for (i = 2; i < value; i++)\<close> as a recursion on \<open>i\<close>.\<close>

function isPrime_loop :: "nat \<Rightarrow> nat \<Rightarrow> bool" where
  "isPrime_loop v i = (if i < v then (if v mod i = 0 then False else isPrime_loop v (Suc i)) else True)"
  by pat_completeness auto
termination
  by (relation "measure (\<lambda>(v, i). v - i)") auto

declare isPrime_loop.simps [simp del]

definition isPrime :: "nat \<Rightarrow> bool" where
  "isPrime v = (if v = 1 then False else isPrime_loop v 2)"

lemma isPrime_loop_iff: "isPrime_loop v i \<longleftrightarrow> (\<forall>j. i \<le> j \<and> j < v \<longrightarrow> v mod j \<noteq> 0)"
proof (induction v i rule: isPrime_loop.induct)
  case (1 v i)
  show ?case
  proof (cases "i < v")
    case False
    then show ?thesis by (simp add: isPrime_loop.simps [of v i])
  next
    case True
    show ?thesis
    proof (cases "v mod i = 0")
      case z: True
      with True show ?thesis by (auto simp: isPrime_loop.simps [of v i])
    next
      case nz: False
      have "isPrime_loop v i = isPrime_loop v (Suc i)"
        using True nz by (simp add: isPrime_loop.simps [of v i])
      also have "\<dots> \<longleftrightarrow> (\<forall>j. Suc i \<le> j \<and> j < v \<longrightarrow> v mod j \<noteq> 0)"
        using "1.IH" True nz by simp
      also have "\<dots> \<longleftrightarrow> (\<forall>j. i \<le> j \<and> j < v \<longrightarrow> v mod j \<noteq> 0)"
        using nz by (metis Suc_leI le_neq_implies_less Suc_leD)
      finally show ?thesis .
    qed
  qed
qed

lemma isPrime_iff: "isPrime v \<longleftrightarrow> v \<noteq> 1 \<and> (\<forall>j. 2 \<le> j \<and> j < v \<longrightarrow> \<not> j dvd v)"
  by (auto simp: isPrime_def isPrime_loop_iff mod_eq_0_iff_dvd)

lemma ex_isPrime_ge: "\<exists>p. n \<le> p \<and> isPrime p"
proof -
  define m where "m = fact n + (1::nat)"
  have m2: "2 \<le> m" unfolding m_def using fact_ge_1 [of n, where 'a = nat] by linarith
  define d where "d = (LEAST d. 2 \<le> d \<and> d dvd m)"
  have ex: "2 \<le> m \<and> m dvd m" using m2 by simp
  have d: "2 \<le> d \<and> d dvd m" unfolding d_def by (rule LeastI [of _ m]) (rule ex)
  have least: "\<And>j. 2 \<le> j \<Longrightarrow> j dvd m \<Longrightarrow> d \<le> j"
    unfolding d_def by (rule Least_le) simp
  have "isPrime d"
    unfolding isPrime_iff
  proof (intro conjI allI impI)
    show "d \<noteq> 1" using d by simp
  next
    fix j assume j: "2 \<le> j \<and> j < d"
    show "\<not> j dvd d"
    proof
      assume "j dvd d"
      then have "j dvd m" using d dvd_trans by blast
      then have "d \<le> j" using least j by blast
      then show False using j by simp
    qed
  qed
  moreover have "n < d"
  proof (rule ccontr)
    assume "\<not> n < d"
    then have "d dvd fact n" using d by (intro dvd_fact) auto
    moreover have "d dvd fact n + 1" using d by (simp add: m_def)
    ultimately have "d dvd 1" by (metis dvd_add_right_iff)
    then show False using d by simp
  qed
  ultimately show ?thesis by (intro exI [of _ d]) simp
qed

text \<open>\<^verbatim>\<open>nextPrime\<close>: \<^verbatim>\<open>while (!isPrime(primeNum)) primeNum++\<close>. The loop ends because
  there is a prime above every number.\<close>

function nextPrime :: "nat \<Rightarrow> nat" where
  "nextPrime v = (if isPrime v then v else nextPrime (Suc v))"
  by pat_completeness auto
termination
proof (relation "measure (\<lambda>v. (LEAST p. v \<le> p \<and> isPrime p) - v)")
  show "wf (measure (\<lambda>v. (LEAST p. v \<le> p \<and> isPrime p) - v))" by simp
next
  fix v assume np: "\<not> isPrime v"
  obtain q where q: "Suc v \<le> q \<and> isPrime q" using ex_isPrime_ge by blast
  have a: "Suc v \<le> (LEAST p. Suc v \<le> p \<and> isPrime p) \<and> isPrime (LEAST p. Suc v \<le> p \<and> isPrime p)"
    by (rule LeastI [of _ q]) (rule q)
  have b: "(LEAST p. v \<le> p \<and> isPrime p) = (LEAST p. Suc v \<le> p \<and> isPrime p)"
  proof -
    have "\<And>p. (v \<le> p \<and> isPrime p) = (Suc v \<le> p \<and> isPrime p)"
      using np by (metis Suc_leI le_neq_implies_less Suc_leD)
    then show ?thesis by simp
  qed
  show "(Suc v, v) \<in> measure (\<lambda>v. (LEAST p. v \<le> p \<and> isPrime p) - v)"
  proof -
    have "v < (LEAST p. Suc v \<le> p \<and> isPrime p)" using a by simp
    then have "(LEAST p. Suc v \<le> p \<and> isPrime p) - Suc v < (LEAST p. Suc v \<le> p \<and> isPrime p) - v"
      by (intro diff_less_mono2) simp_all
    then show ?thesis by (simp add: b)
  qed
qed

declare nextPrime.simps [simp del]

text \<open>The constructor: \<^verbatim>\<open>throw std::runtime_error\<close> when \<open>tableSize\<close> is 0 or not prime,
  otherwise \<^verbatim>\<open>new Pair<ValueType>[tableSize]\<close>.\<close>

definition HashTable_new :: "nat \<Rightarrow> error + 'v HashTable" where
  "HashTable_new tableSize =
     (if tableSize = 0 \<or> \<not> isPrime tableSize then Inl RuntimeError
      else Inr \<lparr>table = replicate tableSize None, size_ht = tableSize, elementCount_ht = 0\<rparr>)"

text \<open>\<^verbatim>\<open>(index + (i*i)) % tableSize()\<close>, computed in \<^verbatim>\<open>unsigned\<close>: the sum wraps when
  \<open>i\<close> reaches \<open>65536\<close>. \<^verbatim>\<open>elementCount--\<close> wraps at 0.\<close>

definition probe :: "nat \<Rightarrow> nat \<Rightarrow> nat \<Rightarrow> nat" where
  "probe sz index i = u32 (index + i * i) mod sz"

definition dec32 :: "nat \<Rightarrow> nat" where
  "dec32 n = u32 (n + 4294967295)"

text \<open>\<^verbatim>\<open>get\<close>, \<^verbatim>\<open>update\<close> and \<^verbatim>\<open>remove\<close> each test the home bucket and then run the
  same loop \<^verbatim>\<open>for (i = 0; i < tableSize(); i++)\<close> that returns at the first bucket holding
  the key. \<open>locate\<close> is that search; it yields the bucket the three functions act on,
  \<open>None\<close> when the loop runs out (the \<^verbatim>\<open>return nullptr\<close> / \<^verbatim>\<open>return false\<close> at the end).\<close>

fun locate_loop :: "'v Pair option list \<Rightarrow> nat \<Rightarrow> nat \<Rightarrow> nat \<Rightarrow> nat list \<Rightarrow> nat option" where
  "locate_loop tbl sz index k [] = None"
| "locate_loop tbl sz index k (i # is) =
     (let newIndex = probe sz index i in
      if slot_holds (tbl ! newIndex) k then Some newIndex
      else locate_loop tbl sz index k is)"

definition locate :: "'v HashTable \<Rightarrow> nat \<Rightarrow> nat option" where
  "locate ht k =
     (let index = k mod size_ht ht in
      if slot_holds (table ht ! index) k then Some index
      else locate_loop (table ht) (size_ht ht) index k [0..<size_ht ht])"

text \<open>\<^verbatim>\<open>get\<close> returns \<^verbatim>\<open>&table[j].value\<close> or \<^verbatim>\<open>nullptr\<close>; the model returns the value the
  pointer refers to, \<open>None\<close> for the null pointer.\<close>

definition get_ht :: "'v HashTable \<Rightarrow> nat \<Rightarrow> 'v option" where
  "get_ht ht k =
     (case locate ht k of
        None \<Rightarrow> None
      | Some j \<Rightarrow> (case table ht ! j of None \<Rightarrow> None | Some p \<Rightarrow> Some (val p)))"

definition update_ht :: "'v HashTable \<Rightarrow> nat \<Rightarrow> 'v \<Rightarrow> bool \<times> 'v HashTable" where
  "update_ht ht k newValue =
     (case locate ht k of
        None \<Rightarrow> (False, ht)
      | Some j \<Rightarrow>
          (True, ht\<lparr>table := (table ht)[j := map_option (\<lambda>p. p\<lparr>val := newValue\<rparr>) (table ht ! j)]\<rparr>))"

definition remove_ht :: "'v HashTable \<Rightarrow> nat \<Rightarrow> bool \<times> 'v HashTable" where
  "remove_ht ht k =
     (case locate ht k of
        None \<Rightarrow> (False, ht)
      | Some j \<Rightarrow>
          (True, ht\<lparr>table := (table ht)[j := map_option (\<lambda>p. p\<lparr>isEmpty := True\<rparr>) (table ht ! j)],
                   elementCount_ht := dec32 (elementCount_ht ht)\<rparr>))"

text \<open>Writing a pair into a bucket:
  \<^verbatim>\<open>table[j].key = key; table[j].value = value; table[j].isEmpty = false;\<close>\<close>

definition put :: "'v Pair option list \<Rightarrow> nat \<Rightarrow> nat \<Rightarrow> 'v \<Rightarrow> 'v Pair option list" where
  "put tbl j k v = tbl[j := Some \<lparr>key = k, val = v, isEmpty = False\<rparr>]"

text \<open>The loop that looks for the first empty bucket of the probe sequence (the second
  loop of \<^verbatim>\<open>insert\<close> and the inner loop of \<^verbatim>\<open>checkRehash\<close>).\<close>

fun first_empty :: "'v Pair option list \<Rightarrow> nat \<Rightarrow> nat \<Rightarrow> nat list \<Rightarrow> nat option" where
  "first_empty tbl sz index [] = None"
| "first_empty tbl sz index (i # is) =
     (let newIndex = probe sz index i in
      if slot_isEmpty (tbl ! newIndex) then Some newIndex
      else first_empty tbl sz index is)"

text \<open>\<^verbatim>\<open>checkRehash\<close>. \<^verbatim>\<open>loadFactor >= 0.5\<close> with \<^verbatim>\<open>loadFactor = elementCount*1.0 / size\<close>
  holds exactly when \<open>size \<le> 2 * elementCount\<close>. \<open>collect\<close> is the first loop, which
  copies the occupied buckets into \<open>temp\<close> in bucket order. \<open>temp\<close> has
  \<open>prevElementCount\<close> cells: with more occupied buckets the loop writes past its end, with
  fewer the second loop reads cells that were never written. \<open>reinsert\<close> is the body of
  the second loop, \<open>reinsert_all\<close> the loop.\<close>

fun collect :: "'v Pair option list \<Rightarrow> (nat \<times> 'v) list" where
  "collect [] = []"
| "collect (s # ss) =
     (case s of
        None \<Rightarrow> collect ss
      | Some p \<Rightarrow> if isEmpty p then collect ss else (key p, val p) # collect ss)"

definition reinsert :: "nat \<Rightarrow> 'v Pair option list \<Rightarrow> nat \<times> 'v \<Rightarrow> 'v Pair option list" where
  "reinsert sz tbl kv =
     (let ind = fst kv mod sz in
      if slot_isEmpty (tbl ! ind) then put tbl ind (fst kv) (snd kv)
      else (case first_empty tbl sz ind [0..<sz] of
              None \<Rightarrow> tbl
            | Some newIndex \<Rightarrow> put tbl newIndex (fst kv) (snd kv)))"

fun reinsert_all :: "nat \<Rightarrow> 'v Pair option list \<Rightarrow> (nat \<times> 'v) list \<Rightarrow> 'v Pair option list" where
  "reinsert_all sz tbl [] = tbl"
| "reinsert_all sz tbl (kv # kvs) = reinsert_all sz (reinsert sz tbl kv) kvs"

definition checkRehash :: "'v HashTable \<Rightarrow> nat \<Rightarrow> nat \<Rightarrow> error + ('v HashTable \<times> nat)" where
  "checkRehash ht index k =
     (let prevElementCount = dec32 (elementCount_ht ht) in
      if size_ht ht \<le> 2 * elementCount_ht ht then
        (let temp = collect (table ht) in
         if prevElementCount < length temp then Inl OutOfBounds
         else if length temp < prevElementCount then Inl Uninitialised
         else
           (let newSize = nextPrime (2 * size_ht ht) in
            Inr (ht\<lparr>table := reinsert_all newSize (replicate newSize None) temp,
                    size_ht := newSize\<rparr>,
                 k mod newSize)))
      else Inr (ht, index))"

text \<open>\<^verbatim>\<open>insert\<close>. The first \<^verbatim>\<open>if\<close> either returns false on a duplicate or goes on with a
  table and a home index: after \<^verbatim>\<open>elementCount++\<close> and \<^verbatim>\<open>checkRehash\<close> when the home
  bucket or a probed bucket is empty, unchanged when the loop runs out. \<open>insert_scan\<close> is
  the loop of the \<^verbatim>\<open>else\<close> branch, \<open>store\<close> the second \<^verbatim>\<open>if\<close> with the final
  \<^verbatim>\<open>return false\<close>.\<close>

datatype scan = Duplicate | Vacant | Exhausted

fun insert_scan :: "'v Pair option list \<Rightarrow> nat \<Rightarrow> nat \<Rightarrow> nat \<Rightarrow> nat list \<Rightarrow> scan" where
  "insert_scan tbl sz index k [] = Exhausted"
| "insert_scan tbl sz index k (i # is) =
     (let newIndex = probe sz index i in
      if slot_holds (tbl ! newIndex) k then Duplicate
      else if slot_isEmpty (tbl ! newIndex) then Vacant
      else insert_scan tbl sz index k is)"

definition store :: "'v HashTable \<Rightarrow> nat \<Rightarrow> nat \<Rightarrow> 'v \<Rightarrow> bool \<times> 'v HashTable" where
  "store ht index k v =
     (if slot_isEmpty (table ht ! index) then (True, ht\<lparr>table := put (table ht) index k v\<rparr>)
      else (case first_empty (table ht) (size_ht ht) index [0..<size_ht ht] of
              Some newIndex \<Rightarrow> (True, ht\<lparr>table := put (table ht) newIndex k v\<rparr>)
            | None \<Rightarrow> (False, ht)))"

definition count_up :: "'v HashTable \<Rightarrow> 'v HashTable" where
  "count_up ht = ht\<lparr>elementCount_ht := elementCount_ht ht + 1\<rparr>"

definition insert_ht :: "'v HashTable \<Rightarrow> nat \<Rightarrow> 'v \<Rightarrow> error + (bool \<times> 'v HashTable)" where
  "insert_ht ht k v =
     (let index = k mod size_ht ht in
      if slot_isEmpty (table ht ! index) then
        bind_e (checkRehash (count_up ht) index k) (\<lambda>(ht', index'). Inr (store ht' index' k v))
      else
        (case insert_scan (table ht) (size_ht ht) index k [0..<size_ht ht] of
           Duplicate \<Rightarrow> Inr (False, ht)
         | Vacant \<Rightarrow>
             bind_e (checkRehash (count_up ht) index k) (\<lambda>(ht', index'). Inr (store ht' index' k v))
         | Exhausted \<Rightarrow> Inr (store ht index k v)))"

text \<open>\<^verbatim>\<open>numElements\<close> and \<^verbatim>\<open>tableSize\<close>.\<close>

definition numElements_ht :: "'v HashTable \<Rightarrow> nat" where
  "numElements_ht ht = elementCount_ht ht"

definition tableSize :: "'v HashTable \<Rightarrow> nat" where
  "tableSize ht = size_ht ht"

section \<open>PriorityQueue\<close>

record 'v PriorityQueue =
  heap :: "'v Pair option list"
  data :: "nat HashTable"
  size_pq :: nat
  elementCount_pq :: nat

text \<open>Accesses to the heap array, which has \<open>maxSize + 1\<close> cells. An index past the end
  of the array is \<open>OutOfBounds\<close>; reading the key of a cell that was never written is
  \<open>Uninitialised\<close>. \<open>copy_slot\<close> is the whole-struct assignment
  \<^verbatim>\<open>heap[dst] = heap[src]\<close>, \<open>key_at\<close> is \<^verbatim>\<open>heap[i].key\<close>, \<open>write_kv\<close> is
  \<^verbatim>\<open>heap[i].key = key; heap[i].value = value\<close>, \<open>modify_key\<close> is \<^verbatim>\<open>heap[i].key -= change\<close>
  or \<^verbatim>\<open>+=\<close>, \<open>swap_slots\<close> is the exchange through \<open>temp\<close>.\<close>

definition key_at :: "'v Pair option list \<Rightarrow> nat \<Rightarrow> error + nat" where
  "key_at h i =
     (if i < length h then (case h ! i of None \<Rightarrow> Inl Uninitialised | Some p \<Rightarrow> Inr (key p))
      else Inl OutOfBounds)"

definition copy_slot :: "'v Pair option list \<Rightarrow> nat \<Rightarrow> nat \<Rightarrow> error + 'v Pair option list" where
  "copy_slot h dst src =
     (if src < length h \<and> dst < length h then Inr (h[dst := h ! src]) else Inl OutOfBounds)"

definition write_kv :: "'v Pair option list \<Rightarrow> nat \<Rightarrow> nat \<Rightarrow> 'v \<Rightarrow> error + 'v Pair option list" where
  "write_kv h i k v =
     (if i < length h then
        Inr (h[i := Some (case h ! i of
                            None \<Rightarrow> \<lparr>key = k, val = v, isEmpty = True\<rparr>
                          | Some p \<Rightarrow> p\<lparr>key := k, val := v\<rparr>)])
      else Inl OutOfBounds)"

definition modify_key :: "'v Pair option list \<Rightarrow> nat \<Rightarrow> (nat \<Rightarrow> nat) \<Rightarrow> error + 'v Pair option list" where
  "modify_key h i f =
     (if i < length h then
        (case h ! i of
           None \<Rightarrow> Inl Uninitialised
         | Some p \<Rightarrow> Inr (h[i := Some (p\<lparr>key := f (key p)\<rparr>)]))
      else Inl OutOfBounds)"

definition swap_slots :: "'v Pair option list \<Rightarrow> nat \<Rightarrow> nat \<Rightarrow> 'v Pair option list" where
  "swap_slots h i j = (let temp = h ! i in (h[i := h ! j])[j := temp])"

text \<open>The constructor. The member initialiser \<^verbatim>\<open>data(nextPrime(maxSize))\<close> runs first and
  throws for \<open>maxSize = 0\<close>, since \<open>nextPrime 0 = 0\<close>; the body throws for 0 as well.\<close>

definition PriorityQueue_new :: "nat \<Rightarrow> error + 'v PriorityQueue" where
  "PriorityQueue_new maxSize =
     bind_e (HashTable_new (nextPrime maxSize)) (\<lambda>d.
       if maxSize = 0 then Inl RuntimeError
       else Inr \<lparr>heap = replicate (maxSize + 1) None, data = d,
                 size_pq = maxSize, elementCount_pq = 0\<rparr>)"

definition numElements :: "'v PriorityQueue \<Rightarrow> nat" where
  "numElements pq = elementCount_pq pq"

definition maxSize :: "'v PriorityQueue \<Rightarrow> nat" where
  "maxSize pq = size_pq pq"

definition leftChild :: "nat \<Rightarrow> nat" where
  "leftChild index = 2 * index"

definition rightChild :: "nat \<Rightarrow> nat" where
  "rightChild index = 2 * index + 1"

definition parent :: "nat \<Rightarrow> nat" where
  "parent index = index div 2"

text \<open>\<^verbatim>\<open>percolateUp\<close>. After the exchange \<^verbatim>\<open>heap[index]\<close> holds the former parent, whose
  key \<open>kp\<close> is the one passed to \<^verbatim>\<open>data.update\<close>.\<close>

function percolateUp :: "'v PriorityQueue \<Rightarrow> nat \<Rightarrow> error + ('v PriorityQueue \<times> nat)" where
  "percolateUp pq index =
     (if 1 < index then
        (case key_at (heap pq) (parent index) of
           Inl e \<Rightarrow> Inl e
         | Inr kp \<Rightarrow>
             (case key_at (heap pq) index of
                Inl e \<Rightarrow> Inl e
              | Inr ki \<Rightarrow>
                  if ki < kp then
                    percolateUp
                      (pq\<lparr>heap := swap_slots (heap pq) (parent index) index,
                          data := snd (update_ht (data pq) kp index)\<rparr>)
                      (parent index)
                  else Inr (pq, index)))
      else Inr (pq, index))"
  by pat_completeness auto
termination
  by (relation "measure (\<lambda>(pq, index). index)") (auto simp: parent_def)

declare percolateUp.simps [simp del]

text \<open>\<^verbatim>\<open>percolateDown\<close>. The loop condition is
  \<^verbatim>\<open>(rightChild(index) < elementCount || leftChild(index) < elementCount || baseCase) &&
  (heap[index].key > heap[leftChild(index)].key || heap[index].key > heap[rightChild(index)].key)\<close>.
  When its first conjunct holds the three keys are read, in the condition or in the first
  statement of the body. After the exchange \<^verbatim>\<open>heap[index]\<close> holds the child, whose key
  \<open>ks\<close> is passed to \<^verbatim>\<open>data.update\<close>.\<close>

function percolateDown_loop ::
  "'v PriorityQueue \<Rightarrow> nat \<Rightarrow> bool \<Rightarrow> error + ('v PriorityQueue \<times> nat)" where
  "percolateDown_loop pq index baseCase =
     (if rightChild index < elementCount_pq pq \<or> leftChild index < elementCount_pq pq \<or> baseCase then
        (case key_at (heap pq) index of
           Inl e \<Rightarrow> Inl e
         | Inr ki \<Rightarrow>
             (case key_at (heap pq) (leftChild index) of
                Inl e \<Rightarrow> Inl e
              | Inr kl \<Rightarrow>
                  (case key_at (heap pq) (rightChild index) of
                     Inl e \<Rightarrow> Inl e
                   | Inr kr \<Rightarrow>
                       if kl < ki \<or> kr < ki then
                         (let smallest = (if kr < kl then rightChild index else leftChild index);
                              ks = (if kr < kl then kr else kl)
                          in if smallest \<noteq> index then
                               percolateDown_loop
                                 (pq\<lparr>heap := swap_slots (heap pq) index smallest,
                                     data := snd (update_ht (data pq) ks index)\<rparr>)
                                 smallest False
                             else percolateDown_loop pq index False)
                       else Inr (pq, index))))
      else Inr (pq, index))"
  by pat_completeness auto
termination
proof (relation "measure (\<lambda>(pq, index, baseCase). (if baseCase then 1 else 0) + (elementCount_pq pq - index))")
  show "wf (measure (\<lambda>(pq :: 'v PriorityQueue, index, baseCase). (if baseCase then 1 else 0) + (elementCount_pq pq - index)))"
    by simp
next
  fix pq :: "'v PriorityQueue" and index baseCase ki kl kr smallest ks
  assume "rightChild index < elementCount_pq pq \<or> leftChild index < elementCount_pq pq \<or> baseCase"
    and "smallest = (if kr < kl then rightChild index else leftChild index)"
    and "smallest \<noteq> index"
  then show "((pq\<lparr>heap := swap_slots (heap pq) index smallest,
                   data := snd (update_ht (data pq) ks index)\<rparr>, smallest, False),
              pq, index, baseCase)
             \<in> measure (\<lambda>(pq, index, baseCase). (if baseCase then 1 else 0) + (elementCount_pq pq - index))"
    by (auto simp: rightChild_def leftChild_def split: if_splits)
next
  fix pq :: "'v PriorityQueue" and index baseCase ki kl kr smallest
  assume "key_at (heap pq) index = Inr ki" "key_at (heap pq) (leftChild index) = Inr kl"
    "kl < ki \<or> kr < ki" "smallest = (if kr < kl then rightChild index else leftChild index)"
    "\<not> smallest \<noteq> index"
  then have False by (auto simp: rightChild_def leftChild_def split: if_splits)
  then show "((pq, index, False), pq, index, baseCase)
             \<in> measure (\<lambda>(pq, index, baseCase). (if baseCase then 1 else 0) + (elementCount_pq pq - index))"
    by simp
qed

declare percolateDown_loop.simps [simp del]

definition percolateDown :: "'v PriorityQueue \<Rightarrow> nat \<Rightarrow> error + ('v PriorityQueue \<times> nat)" where
  "percolateDown pq index = percolateDown_loop pq index (elementCount_pq pq \<le> 2)"

text \<open>\<^verbatim>\<open>insert\<close>.\<close>

definition insert_pq :: "'v PriorityQueue \<Rightarrow> nat \<Rightarrow> 'v \<Rightarrow> error + (bool \<times> 'v PriorityQueue)" where
  "insert_pq pq k v =
     (if maxSize pq \<le> elementCount_pq pq \<or> get_ht (data pq) k \<noteq> None then Inr (False, pq)
      else
        (let n = elementCount_pq pq + 1 in
         bind_e (write_kv (heap pq) n k v) (\<lambda>h.
         bind_e (percolateUp (pq\<lparr>heap := h, elementCount_pq := n\<rparr>) n) (\<lambda>(pq', newIndex).
         bind_e (insert_ht (data pq') k newIndex) (\<lambda>(ok, d).
         Inr (True, pq'\<lparr>data := d\<rparr>))))))"

text \<open>\<^verbatim>\<open>getMinKey\<close> and \<^verbatim>\<open>getMinValue\<close> return \<^verbatim>\<open>&heap[1].key\<close> and \<^verbatim>\<open>&heap[1].value\<close>.
  A \<^verbatim>\<open>const unsigned*\<close> is null or the address of the key field of a heap cell, a
  \<^verbatim>\<open>const ValueType*\<close> is null or the address of the value field of a heap cell.\<close>

datatype key_pointer = NullKey | KeyField nat

datatype value_pointer = NullValue | ValueField nat

definition getMinKey :: "'v PriorityQueue \<Rightarrow> key_pointer" where
  "getMinKey pq = KeyField 1"

definition getMinValue :: "'v PriorityQueue \<Rightarrow> value_pointer" where
  "getMinValue pq = ValueField 1"

text \<open>\<^verbatim>\<open>deleteMin\<close>; \<^verbatim>\<open>*getMinKey()\<close> reads \<^verbatim>\<open>heap[1].key\<close>.\<close>

definition deleteMin :: "'v PriorityQueue \<Rightarrow> error + (bool \<times> 'v PriorityQueue)" where
  "deleteMin pq =
     (if elementCount_pq pq = 0 then Inr (False, pq)
      else
        bind_e (key_at (heap pq) 1) (\<lambda>minKey.
        bind_e (copy_slot (heap pq) 1 (elementCount_pq pq)) (\<lambda>h.
        bind_e (percolateDown
                  (pq\<lparr>heap := h, data := snd (remove_ht (data pq) minKey),
                      elementCount_pq := dec32 (elementCount_pq pq)\<rparr>) 1) (\<lambda>(pq', newIndex).
        bind_e (key_at (heap pq') newIndex) (\<lambda>k.
        Inr (True, pq'\<lparr>data := snd (update_ht (data pq') k newIndex)\<rparr>))))))"

text \<open>\<^verbatim>\<open>decreaseKey\<close> and \<^verbatim>\<open>increaseKey\<close>; \<^verbatim>\<open>key - change\<close> and \<^verbatim>\<open>key + change\<close> are
  \<^verbatim>\<open>unsigned\<close>.\<close>

definition decreaseKey :: "'v PriorityQueue \<Rightarrow> nat \<Rightarrow> nat \<Rightarrow> error + (bool \<times> 'v PriorityQueue)" where
  "decreaseKey pq k change =
     (if change = 0 \<or> get_ht (data pq) k = None
         \<or> get_ht (data pq) (u32 (k + 4294967296 - change)) \<noteq> None
      then Inr (False, pq)
      else
        (case get_ht (data pq) k of
           None \<Rightarrow> Inl NullPointer
         | Some index \<Rightarrow>
             bind_e (modify_key (heap pq) index (\<lambda>x. u32 (x + 4294967296 - change))) (\<lambda>h.
             bind_e (percolateUp (pq\<lparr>heap := h, data := snd (remove_ht (data pq) k)\<rparr>) index)
               (\<lambda>(pq', newIndex).
             bind_e (key_at (heap pq') newIndex) (\<lambda>k'.
             bind_e (insert_ht (data pq') k' newIndex) (\<lambda>(ok, d).
             Inr (True, pq'\<lparr>data := d\<rparr>)))))))"

definition increaseKey :: "'v PriorityQueue \<Rightarrow> nat \<Rightarrow> nat \<Rightarrow> error + (bool \<times> 'v PriorityQueue)" where
  "increaseKey pq k change =
     (if change = 0 \<or> get_ht (data pq) k = None \<or> get_ht (data pq) (u32 (k + change)) \<noteq> None
      then Inr (False, pq)
      else
        (case get_ht (data pq) k of
           None \<Rightarrow> Inl NullPointer
         | Some index \<Rightarrow>
             bind_e (modify_key (heap pq) index (\<lambda>x. u32 (x + change))) (\<lambda>h.
             bind_e (percolateDown (pq\<lparr>heap := h, data := snd (remove_ht (data pq) k)\<rparr>) index)
               (\<lambda>(pq', newIndex).
             bind_e (key_at (heap pq') newIndex) (\<lambda>k'.
             bind_e (insert_ht (data pq') k' newIndex) (\<lambda>(ok, d).
             Inr (True, pq'\<lparr>data := d\<rparr>)))))))"

text \<open>\<^verbatim>\<open>remove\<close>. \<open>remove_sweep\<close> is the final loop
  \<^verbatim>\<open>while (index <= elementCount)\<close>; \<^verbatim>\<open>*data.get(heap[index].key)\<close> dereferences a null
  pointer when the key is not in the table.\<close>

function remove_sweep :: "'v PriorityQueue \<Rightarrow> nat \<Rightarrow> error + 'v PriorityQueue" where
  "remove_sweep pq index =
     (if index \<le> elementCount_pq pq then
        (case key_at (heap pq) index of
           Inl e \<Rightarrow> Inl e
         | Inr k \<Rightarrow>
             (case get_ht (data pq) k of
                None \<Rightarrow> Inl NullPointer
              | Some j \<Rightarrow>
                  remove_sweep
                    (if j \<noteq> index then pq\<lparr>data := snd (update_ht (data pq) k index)\<rparr> else pq)
                    (Suc index)))
      else Inr pq)"
  by pat_completeness auto
termination
  by (relation "measure (\<lambda>(pq, index). Suc (elementCount_pq pq) - index)") auto

declare remove_sweep.simps [simp del]

definition remove_pq :: "'v PriorityQueue \<Rightarrow> nat \<Rightarrow> error + (bool \<times> 'v PriorityQueue)" where
  "remove_pq pq k =
     (case get_ht (data pq) k of
        None \<Rightarrow> Inr (False, pq)
      | Some index \<Rightarrow>
          bind_e (copy_slot (heap pq) index (numElements pq)) (\<lambda>h.
          bind_e (percolateDown (pq\<lparr>heap := h, data := snd (remove_ht (data pq) k)\<rparr>) index)
            (\<lambda>(pq1, newIndex).
          bind_e (if newIndex = index then percolateUp pq1 index else Inr (pq1, index))
            (\<lambda>(pq2, index').
          bind_e (key_at (heap pq2) index') (\<lambda>k'.
          bind_e (remove_sweep
                    (pq2\<lparr>data := snd (update_ht (data pq2) k' index'),
                         elementCount_pq := dec32 (elementCount_pq pq2)\<rparr>) index') (\<lambda>pq3.
          Inr (True, pq3)))))))"

text \<open>A sequence of calls on one queue, each with its result.\<close>

datatype 'v call = Insert nat 'v | DeleteMin | Remove nat | DecreaseKey nat nat | IncreaseKey nat nat

fun perform :: "'v PriorityQueue \<Rightarrow> 'v call \<Rightarrow> error + (bool \<times> 'v PriorityQueue)" where
  "perform pq (Insert k v) = insert_pq pq k v"
| "perform pq DeleteMin = deleteMin pq"
| "perform pq (Remove k) = remove_pq pq k"
| "perform pq (DecreaseKey k c) = decreaseKey pq k c"
| "perform pq (IncreaseKey k c) = increaseKey pq k c"

fun calls :: "'v PriorityQueue \<Rightarrow> 'v call list \<Rightarrow> error + (bool list \<times> 'v PriorityQueue)" where
  "calls pq [] = Inr ([], pq)"
| "calls pq (c # cs) =
     bind_e (perform pq c) (\<lambda>(b, pq').
     bind_e (calls pq' cs) (\<lambda>(bs, pq''). Inr (b # bs, pq'')))"

definition session :: "nat \<Rightarrow> 'v call list \<Rightarrow> error + (bool list \<times> 'v PriorityQueue)" where
  "session m cs = bind_e (PriorityQueue_new m) (\<lambda>pq. calls pq cs)"

text \<open>What the pointers returned by \<^verbatim>\<open>getMinKey\<close> and \<^verbatim>\<open>getMinValue\<close> refer to;
  \<open>val_at\<close> is \<^verbatim>\<open>heap[i].value\<close>.\<close>

definition val_at :: "'v Pair option list \<Rightarrow> nat \<Rightarrow> error + 'v" where
  "val_at h i =
     (if i < length h then (case h ! i of None \<Rightarrow> Inl Uninitialised | Some p \<Rightarrow> Inr (val p))
      else Inl OutOfBounds)"

fun deref_key :: "'v PriorityQueue \<Rightarrow> key_pointer \<Rightarrow> error + nat" where
  "deref_key pq (KeyField i) = key_at (heap pq) i"
| "deref_key pq NullKey = Inl NullPointer"

fun deref_value :: "'v PriorityQueue \<Rightarrow> value_pointer \<Rightarrow> error + 'v" where
  "deref_value pq (ValueField i) = val_at (heap pq) i"
| "deref_value pq NullValue = Inl NullPointer"

text \<open>\<^verbatim>\<open>operator<<\<close> of the priority queue. \<open>show_nat\<close> is the decimal output of an
  \<^verbatim>\<open>unsigned\<close>; the output operator of \<open>ValueType\<close> is the parameter \<open>showv\<close>;
  \<^verbatim>\<open>std::endl\<close> writes a newline. \<open>pair_at\<close> reads \<^verbatim>\<open>heap[i].key\<close> and
  \<^verbatim>\<open>heap[i].value\<close>.\<close>

definition endl :: string where
  "endl = [CHR 0x0A]"

definition digit_char :: "nat \<Rightarrow> char" where
  "digit_char d = ''0123456789'' ! d"

fun show_nat :: "nat \<Rightarrow> string" where
  "show_nat n = (if n < 10 then [digit_char n] else show_nat (n div 10) @ [digit_char (n mod 10)])"

declare show_nat.simps [simp del]

definition pair_at :: "'v Pair option list \<Rightarrow> nat \<Rightarrow> error + (nat \<times> 'v)" where
  "pair_at h i =
     (if i < length h then
        (case h ! i of None \<Rightarrow> Inl Uninitialised | Some p \<Rightarrow> Inr (key p, val p))
      else Inl OutOfBounds)"

definition show_pair :: "('v \<Rightarrow> string) \<Rightarrow> nat \<times> 'v \<Rightarrow> string" where
  "show_pair showv kv = ''('' @ show_nat (fst kv) @ '','' @ showv (snd kv) @ '')''"

function print_loop ::
  "('v \<Rightarrow> string) \<Rightarrow> 'v PriorityQueue \<Rightarrow> nat \<Rightarrow> nat \<Rightarrow> nat \<Rightarrow> string \<Rightarrow> error + (string \<times> nat)" where
  "print_loop showv pq i counter current os =
     (if i < numElements pq then
        (case pair_at (heap pq) (i + 1) of
           Inl e \<Rightarrow> Inl e
         | Inr kv \<Rightarrow>
             if counter + 1 = current then
               print_loop showv pq (i + 1) 0 (current + current) (os @ show_pair showv kv @ endl)
             else
               print_loop showv pq (i + 1) (counter + 1) current (os @ show_pair showv kv @ '' ''))
      else Inr (os, counter))"
  by pat_completeness auto
termination
  by (relation "measure (\<lambda>(showv, pq, i, counter, current, os). numElements pq - i)") auto

declare print_loop.simps [simp del]

definition print_pq :: "('v \<Rightarrow> string) \<Rightarrow> 'v PriorityQueue \<Rightarrow> string \<Rightarrow> error + string" where
  "print_pq showv pq os =
     bind_e (print_loop showv pq 0 0 1 os) (\<lambda>(os', counter).
       Inr (if counter \<noteq> 0 then os' @ endl else os'))"

section \<open>Properties the specification states\<close>

text \<open>The keys of the occupied slots \<open>1..elementCount\<close>, in array order, and the pairs
  stored there.\<close>

definition heap_keys :: "'v PriorityQueue \<Rightarrow> (error + nat) list" where
  "heap_keys pq = map (key_at (heap pq)) [1..<Suc (elementCount_pq pq)]"

definition heap_pairs :: "'v PriorityQueue \<Rightarrow> (error + (nat \<times> 'v)) list" where
  "heap_pairs pq = map (pair_at (heap pq)) [1..<Suc (elementCount_pq pq)]"

text \<open>Heap order: for every occupied slot \<open>i > 1\<close> the key of the parent slot is at most
  the key of slot \<open>i\<close>.\<close>

definition ordered_at :: "'v PriorityQueue \<Rightarrow> nat \<Rightarrow> bool" where
  "ordered_at pq i =
     (case key_at (heap pq) (parent i) of
        Inl e \<Rightarrow> False
      | Inr kp \<Rightarrow> (case key_at (heap pq) i of Inl e \<Rightarrow> False | Inr ki \<Rightarrow> kp \<le> ki))"

definition heap_order :: "'v PriorityQueue \<Rightarrow> bool" where
  "heap_order pq = list_all (ordered_at pq) [2..<Suc (elementCount_pq pq)]"

text \<open>Index bijection: the hash index maps the key of every occupied slot \<open>i\<close> to \<open>i\<close>,
  and every key stored in the hash index is the key of an occupied slot.\<close>

definition indexed_at :: "'v PriorityQueue \<Rightarrow> nat \<Rightarrow> bool" where
  "indexed_at pq i =
     (case key_at (heap pq) i of Inl e \<Rightarrow> False | Inr k \<Rightarrow> get_ht (data pq) k = Some i)"

definition key_is_live :: "'v PriorityQueue \<Rightarrow> nat \<times> nat \<Rightarrow> bool" where
  "key_is_live pq kv = list_ex (\<lambda>i. key_at (heap pq) i = Inr (fst kv)) [1..<Suc (elementCount_pq pq)]"

definition index_bijection :: "'v PriorityQueue \<Rightarrow> bool" where
  "index_bijection pq =
     (list_all (indexed_at pq) [1..<Suc (elementCount_pq pq)]
      \<and> list_all (key_is_live pq) (collect (table (data pq))))"

text \<open>The output format. \<open>level_split c\<close> cuts a list into levels of sizes \<open>c\<close>,
  \<open>2 * c\<close>, \<open>4 * c\<close>, ..., each with its nominal size; the last one may be shorter.
  \<open>level_spec\<close> is a level as the specification words it: the elements separated by
  single spaces, then a newline. \<open>level_code\<close> differs on a level that is not full: there
  every element, the last one too, is followed by a space, then comes the newline.\<close>

function level_split :: "nat \<Rightarrow> 'a list \<Rightarrow> (nat \<times> 'a list) list" where
  "level_split c xs =
     (if xs = [] \<or> c = 0 then [] else (c, take c xs) # level_split (2 * c) (drop c xs))"
  by pat_completeness auto
termination
  by (relation "measure (\<lambda>(c, xs). length xs)") auto

declare level_split.simps [simp del]

fun join_spaces :: "string list \<Rightarrow> string" where
  "join_spaces [] = []"
| "join_spaces [e] = e"
| "join_spaces (e # es) = e @ '' '' @ join_spaces es"

definition level_spec :: "nat \<times> string list \<Rightarrow> string" where
  "level_spec l = join_spaces (snd l) @ endl"

definition level_code :: "nat \<times> string list \<Rightarrow> string" where
  "level_code l =
     (if length (snd l) = fst l then join_spaces (snd l) @ endl
      else concat (map (\<lambda>e. e @ '' '') (snd l)) @ endl)"

definition format_spec :: "('v \<Rightarrow> string) \<Rightarrow> (nat \<times> 'v) list \<Rightarrow> string" where
  "format_spec showv kvs = concat (map level_spec (level_split 1 (map (show_pair showv) kvs)))"

definition format_code :: "('v \<Rightarrow> string) \<Rightarrow> (nat \<times> 'v) list \<Rightarrow> string" where
  "format_code showv kvs = concat (map level_code (level_split 1 (map (show_pair showv) kvs)))"

text \<open>The representation invariant of a hash table, as the constructor sets it up and the
  public operations keep it: the bucket array has \<open>size\<close> cells, \<open>size\<close> is a positive
  prime, and \<open>elementCount\<close> is the number of occupied buckets. The last conjunct bounds
  the size the table has after its next rehash, so that the \<^verbatim>\<open>unsigned\<close> sum
  \<^verbatim>\<open>index + i*i\<close> of a probe does not wrap.\<close>

definition ht_inv :: "'v HashTable \<Rightarrow> bool" where
  "ht_inv ht =
     (length (table ht) = size_ht ht \<and> 0 < size_ht ht \<and> isPrime (size_ht ht)
      \<and> elementCount_ht ht = length (collect (table ht))
      \<and> nextPrime (2 * size_ht ht) < 65536)"

text \<open>A sequence of hash-table inserts; each call is recorded with its result and the
  table size after it.\<close>

fun insert_trace ::
  "'v HashTable \<Rightarrow> (nat \<times> 'v) list \<Rightarrow> error + ((bool \<times> nat) list \<times> 'v HashTable)" where
  "insert_trace ht [] = Inr ([], ht)"
| "insert_trace ht (kv # kvs) =
     bind_e (insert_ht ht (fst kv) (snd kv)) (\<lambda>(b, ht').
     bind_e (insert_trace ht' kvs) (\<lambda>(bs, ht''). Inr ((b, tableSize ht') # bs, ht'')))"

section \<open>Concrete states used as inputs\<close>

text \<open>The queue in the middle of the call \<^verbatim>\<open>increaseKey(2, 8)\<close> that follows insert 1, insert 5,
  insert 3, deleteMin, deleteMin, insert 3, insert 2 on a queue of capacity 3: the key of
  slot 1 is already 10 and the old key is removed from the hash index. Slots 2 and 3 both
  hold key 3.\<close>

definition tie_state :: "nat PriorityQueue" where
  "tie_state =
     \<lparr>heap = [None, Some \<lparr>key = 10, val = 0, isEmpty = True\<rparr>,
              Some \<lparr>key = 3, val = 0, isEmpty = True\<rparr>,
              Some \<lparr>key = 3, val = 0, isEmpty = True\<rparr>],
      data = \<lparr>table = [None, Some \<lparr>key = 1, val = 1, isEmpty = True\<rparr>,
                       Some \<lparr>key = 2, val = 1, isEmpty = True\<rparr>,
                       Some \<lparr>key = 3, val = 3, isEmpty = False\<rparr>, None,
                       Some \<lparr>key = 5, val = 3, isEmpty = False\<rparr>, None],
              size_ht = 7, elementCount_ht = 2\<rparr>,
      size_pq = 3, elementCount_pq = 3\<rparr>"

text \<open>The queue after insert(1, 7) and insert(2, 8) on a queue of capacity 3.\<close>

definition printed_queue :: "nat PriorityQueue" where
  "printed_queue =
     \<lparr>heap = [None, Some \<lparr>key = 1, val = 7, isEmpty = True\<rparr>,
              Some \<lparr>key = 2, val = 8, isEmpty = True\<rparr>, None],
      data = \<lparr>table = [None, Some \<lparr>key = 1, val = 1, isEmpty = False\<rparr>,
                       Some \<lparr>key = 2, val = 2, isEmpty = False\<rparr>, None, None, None, None],
              size_ht = 7, elementCount_ht = 2\<rparr>,
      size_pq = 3, elementCount_pq = 2\<rparr>"


definition empty_queue :: "nat PriorityQueue" where
  "empty_queue =
     \<lparr>heap = [None, None, None, None],
      data = \<lparr>table = [None, None, None], size_ht = 3, elementCount_ht = 0\<rparr>,
      size_pq = 3, elementCount_pq = 0\<rparr>"

section \<open>Auxiliary definitions for the proofs\<close>

text \<open>The indices of the occupied buckets of a bucket array.\<close>

definition occ :: "'v Pair option list \<Rightarrow> nat set" where
  "occ T = {j. j < length T \<and> \<not> slot_isEmpty (T ! j)}"

text \<open>The loop on the list of rendered elements.\<close>

fun loop_out :: "nat \<Rightarrow> nat \<Rightarrow> string list \<Rightarrow> string \<times> nat" where
  "loop_out counter current [] = ([], counter)"
| "loop_out counter current (e # es) =
     (if counter + 1 = current then
        (e @ endl @ fst (loop_out 0 (current + current) es), snd (loop_out 0 (current + current) es))
      else
        (e @ '' '' @ fst (loop_out (counter + 1) current es), snd (loop_out (counter + 1) current es)))"

definition rendered :: "nat \<Rightarrow> string list \<Rightarrow> string" where
  "rendered c es = fst (loop_out 0 c es) @ (if snd (loop_out 0 c es) \<noteq> 0 then endl else [])"

section \<open>Evaluation\<close>

text \<open>Rules that let the simplifier run the model on concrete inputs, innermost call
  first.\<close>

lemma bind_e_Inl: "bind_e (Inl e) f = Inl e"
  by (simp add: bind_e_def)

lemma bind_e_Inr: "bind_e (Inr x) f = f x"
  by (simp add: bind_e_def)

lemma bind_e_weak_cong: "m = m' \<Longrightarrow> bind_e m f = bind_e m' f"
  by simp

lemma Let_weak_cong: "s = s' \<Longrightarrow> Let s f = Let s' f"
  by simp

lemma upt_step: "[i..<j] = (if i < j then i # [i + 1..<j] else [])"
  by (simp add: upt_rec [of i j])

lemma replicate_step: "replicate n x = (if n = 0 then [] else x # replicate (n - 1) x)"
  by (cases n) simp_all

lemmas ht_eval =
  insert_ht_def slot_isEmpty_def slot_holds_def checkRehash_def count_up_def dec32_def u32_def
  store_def put_def probe_def reinsert_def Let_def bind_e_Inl bind_e_Inr HashTable_new_def
  get_ht_def update_ht_def remove_ht_def locate_def numElements_ht_def tableSize_def
  nextPrime.simps isPrime_def isPrime_loop.simps upt_step replicate_step numeral_2_eq_2 [symmetric]

lemmas pq_eval =
  session_def PriorityQueue_new_def insert_pq_def deleteMin_def remove_pq_def increaseKey_def
  decreaseKey_def percolateUp.simps percolateDown_loop.simps percolateDown_def
  remove_sweep.simps key_at_def copy_slot_def write_kv_def modify_key_def
  swap_slots_def maxSize_def numElements_def leftChild_def rightChild_def parent_def
  getMinKey_def getMinValue_def val_at_def heap_keys_def heap_pairs_def pair_at_def
  list.pred_inject

lemmas print_eval =
  print_pq_def print_loop.simps show_pair_def show_nat.simps digit_char_def endl_def
  format_spec_def format_code_def level_split.simps level_spec_def level_code_def

lemmas inv_eval =
  heap_order_def ordered_at_def index_bijection_def indexed_at_def key_is_live_def

section \<open>Lemmas\<close>

subsection \<open>Lookups in the hash table\<close>

lemma locate_loop_same:
  "(\<And>j. slot_holds (T' ! j) k = slot_holds (T ! j) k) \<Longrightarrow>
   locate_loop T' sz idx k is = locate_loop T sz idx k is"
  by (induction "is") (simp_all add: Let_def)

lemma locate_loop_holds:
  "locate_loop T sz idx k is = Some j \<Longrightarrow> slot_holds (T ! j) k"
  by (induction "is") (auto simp: Let_def split: if_splits)

lemma locate_loop_iff:
  "locate_loop T sz idx k is \<noteq> None \<longleftrightarrow> (\<exists>i. i \<in> set is \<and> slot_holds (T ! probe sz idx i) k)"
  by (induction "is") (auto simp: Let_def)

lemma locate_holds: "locate ht k = Some j \<Longrightarrow> slot_holds (table ht ! j) k"
  by (auto simp: locate_def Let_def locate_loop_holds split: if_splits)

lemma slot_holds_key: "slot_holds s k \<Longrightarrow> slot_holds s k' \<Longrightarrow> k = k'"
  by (auto simp: slot_holds_def split: option.splits)

lemma slot_holds_cleared:
  "slot_holds (map_option (\<lambda>p. p\<lparr>isEmpty := True\<rparr>) s) k = False"
  by (cases s) (simp_all add: slot_holds_def)

lemma remove_keeps_other_slots:
  assumes "k' \<noteq> k"
  shows "slot_holds (table (snd (remove_ht ht k)) ! j) k' = slot_holds (table ht ! j) k'"
proof (cases "locate ht k")
  case None
  then show ?thesis by (simp add: remove_ht_def)
next
  case (Some i)
  then have hi: "slot_holds (table ht ! i) k" by (rule locate_holds)
  show ?thesis
  proof (cases "j = i \<and> i < length (table ht)")
    case True
    have "\<not> slot_holds (table ht ! i) k'"
      using hi assms slot_holds_key by blast
    then show ?thesis using True Some by (simp add: remove_ht_def slot_holds_cleared)
  next
    case False
    then have "((table ht)[i := map_option (\<lambda>p. p\<lparr>isEmpty := True\<rparr>) (table ht ! i)]) ! j = table ht ! j"
      by (cases "j = i") (simp_all add: list_update_beyond)
    then show ?thesis using Some by (simp add: remove_ht_def)
  qed
qed

lemma remove_keeps_size: "size_ht (snd (remove_ht ht k)) = size_ht ht"
  by (simp add: remove_ht_def split: option.splits)

lemma remove_keeps_locate:
  assumes "k' \<noteq> k"
  shows "locate (snd (remove_ht ht k)) k' = locate ht k'"
  unfolding locate_def Let_def remove_keeps_size
  using remove_keeps_other_slots [OF assms, of ht]
  by (simp add: locate_loop_same [of "table (snd (remove_ht ht k))" k' "table ht"])

lemma remove_keeps_slot:
  assumes "k' \<noteq> k" "locate ht k' = Some j"
  shows "table (snd (remove_ht ht k)) ! j = table ht ! j"
proof (cases "locate ht k")
  case None
  then show ?thesis by (simp add: remove_ht_def)
next
  case (Some i)
  have "slot_holds (table ht ! i) k" using Some by (rule locate_holds)
  moreover have "slot_holds (table ht ! j) k'" using assms(2) by (rule locate_holds)
  ultimately have "j \<noteq> i" using assms(1) slot_holds_key by blast
  then show ?thesis using Some by (simp add: remove_ht_def)
qed

lemma get_ht_iff_locate: "get_ht ht k \<noteq> None \<longleftrightarrow> locate ht k \<noteq> None"
proof (cases "locate ht k")
  case None
  then show ?thesis by (simp add: get_ht_def)
next
  case (Some j)
  then have "slot_holds (table ht ! j) k" by (rule locate_holds)
  then show ?thesis using Some by (auto simp: get_ht_def slot_holds_def split: option.splits)
qed

subsection \<open>The output operator\<close>

lemma print_loop_out:
  "heap_pairs pq = map Inr kvs \<Longrightarrow> i \<le> length kvs \<Longrightarrow>
   print_loop showv pq i counter current os =
     Inr (os @ fst (loop_out counter current (drop i (map (show_pair showv) kvs))),
          snd (loop_out counter current (drop i (map (show_pair showv) kvs))))"
proof (induction showv pq i counter current os rule: print_loop.induct)
  case (1 showv pq i counter current os)
  note hp = \<open>heap_pairs pq = map Inr kvs\<close>
  have "length (heap_pairs pq) = length kvs"
    using hp by simp
  then have len: "length kvs = numElements pq"
    by (simp add: heap_pairs_def numElements_def del: upt_Suc)
  show ?case
  proof (cases "i < numElements pq")
    case False
    then have "i = length kvs" using \<open>i \<le> length kvs\<close> len by simp
    then show ?thesis using False
      by (subst print_loop.simps) simp
  next
    case True
    have "heap_pairs pq ! i = Inr (kvs ! i)" using hp True len by simp
    then have p: "pair_at (heap pq) (i + 1) = Inr (kvs ! i)"
      using True by (simp add: heap_pairs_def numElements_def del: upt_Suc)
    have d: "drop i (map (show_pair showv) kvs) =
             show_pair showv (kvs ! i) # drop (Suc i) (map (show_pair showv) kvs)"
      using Cons_nth_drop_Suc [of i "map (show_pair showv) kvs"] True len by simp
    have le: "i + 1 \<le> length kvs" using True len by simp
    show ?thesis
    proof (cases "counter + 1 = current")
      case c: True
      show ?thesis
        using "1.IH"(1) [OF True p c hp le] True p c d
        by (subst print_loop.simps) simp
    next
      case c: False
      show ?thesis
        using "1.IH"(2) [OF True p c hp le] True p c d
        by (subst print_loop.simps) simp
    qed
  qed
qed

lemma loop_out_partial:
  "length es < current - counter \<Longrightarrow>
   loop_out counter current es = (concat (map (\<lambda>e. e @ '' '') es), counter + length es)"
  by (induction es arbitrary: counter) auto

lemma loop_out_complete:
  "counter < current \<Longrightarrow> current - counter \<le> length es \<Longrightarrow>
   loop_out counter current es =
     (join_spaces (take (current - counter) es) @ endl
        @ fst (loop_out 0 (current + current) (drop (current - counter) es)),
      snd (loop_out 0 (current + current) (drop (current - counter) es)))"
proof (induction es arbitrary: counter)
  case Nil
  then show ?case by simp
next
  case (Cons e es)
  show ?case
  proof (cases "counter + 1 = current")
    case True
    then have "current - counter = 1" by simp
    then show ?thesis using True by simp
  next
    case False
    then have lt: "counter + 1 < current" using Cons.prems by simp
    then have le: "current - (counter + 1) \<le> length es" using Cons.prems by simp
    have s: "current - counter = Suc (current - (counter + 1))" using lt by simp
    obtain x xs where t: "take (current - (counter + 1)) es = x # xs"
      using lt le by (cases "take (current - (counter + 1)) es") auto
    show ?thesis
      using Cons.IH [OF lt le] False t
      by (simp add: s)
  qed
qed

lemma rendered_levels:
  "0 < c \<Longrightarrow> rendered c es = concat (map level_code (level_split c es))"
proof (induction c es rule: level_split.induct)
  case (1 c es)
  show ?case
  proof (cases "es = []")
    case True
    then show ?thesis by (simp add: rendered_def level_split.simps [of c "[]"])
  next
    case ne: False
    show ?thesis
    proof (cases "c \<le> length es")
      case True
      have "rendered c es = join_spaces (take c es) @ endl @ rendered (2 * c) (drop c es)"
        using loop_out_complete [of 0 c es] "1.prems" True
        by (simp add: rendered_def mult_2)
      moreover have "rendered (2 * c) (drop c es) = concat (map level_code (level_split (2 * c) (drop c es)))"
        using "1.IH" ne "1.prems" by simp
      moreover have "level_code (c, take c es) = join_spaces (take c es) @ endl"
        using True by (simp add: level_code_def)
      ultimately show ?thesis
        using ne "1.prems" by (simp add: level_split.simps [of c es])
    next
      case False
      then have lt: "length es < c - 0" by simp
      have "rendered c es = concat (map (\<lambda>e. e @ '' '') es) @ endl"
        using loop_out_partial [OF lt] ne by (simp add: rendered_def)
      moreover have "level_split c es = [(c, es)]"
        using ne "1.prems" False
        by (simp add: level_split.simps [of c es] level_split.simps [of "2 * c" "[]"])
      moreover have "level_code (c, es) = concat (map (\<lambda>e. e @ '' '') es) @ endl"
        using False by (auto simp: level_code_def)
      ultimately show ?thesis by simp
    qed
  qed
qed

subsection \<open>Quadratic probing in a table of prime size\<close>

lemma nextPrime_ge: "v \<le> nextPrime v"
proof (induction v rule: nextPrime.induct)
  case (1 v)
  show ?case
  proof (cases "isPrime v")
    case True
    then show ?thesis by (simp add: nextPrime.simps [of v])
  next
    case False
    then have "Suc v \<le> nextPrime (Suc v)" using 1 by simp
    then show ?thesis using False by (simp add: nextPrime.simps [of v])
  qed
qed

lemma nextPrime_isPrime: "isPrime (nextPrime v)"
proof (induction v rule: nextPrime.induct)
  case (1 v)
  show ?case
  proof (cases "isPrime v")
    case True
    then show ?thesis by (simp add: nextPrime.simps [of v])
  next
    case False
    then show ?thesis using 1 by (simp add: nextPrime.simps [of v])
  qed
qed

lemma isPrime_dvd_mult:
  assumes p: "isPrime p" and p2: "2 \<le> p" and d: "p dvd a * b"
  shows "p dvd a \<or> p dvd b"
proof (cases "p dvd a")
  case True
  then show ?thesis by simp
next
  case False
  define g where "g = gcd p a"
  have gp: "g dvd p" and ga: "g dvd a" by (simp_all add: g_def)
  have "g \<noteq> 0" using p2 by (auto simp: g_def)
  moreover have "g \<le> p" using gp p2 by (intro dvd_imp_le) auto
  moreover have "g \<noteq> p" using ga False by auto
  moreover have "\<not> (2 \<le> g \<and> g < p)" using p gp by (auto simp: isPrime_iff)
  ultimately have "g = 1" by linarith
  then have "coprime p a" by (simp add: g_def coprime_iff_gcd_eq_1)
  then show ?thesis using d by (simp add: coprime_dvd_mult_right_iff)
qed

lemma isPrime_odd:
  assumes "isPrime p" "2 < p"
  shows "odd p"
  using assms by (auto simp: isPrime_iff)

lemma square_mod_inj:
  assumes p: "isPrime p" and p2: "2 \<le> p"
    and i: "2 * i < p" and j: "2 * j < p" and le: "j \<le> i"
    and eq: "(idx + i * i) mod p = (idx + j * j) mod p"
  shows "i = j"
proof -
  have jj: "idx + j * j \<le> idx + i * i" using le by (simp add: mult_le_mono)
  have "p dvd (idx + i * i) - (idx + j * j)"
    using eq jj by (simp add: mod_eq_dvd_iff_nat)
  moreover have "(idx + i * i) - (idx + j * j) = (i - j) * (i + j)"
    using le by (simp add: algebra_simps diff_mult_distrib)
  ultimately have "p dvd (i - j) * (i + j)" by simp
  then have "p dvd (i - j) \<or> p dvd (i + j)" using p p2 by (rule isPrime_dvd_mult [rotated 2])
  moreover have "i + j < p" using i j by simp
  moreover have "i - j < p" using i by simp
  ultimately have "i - j = 0 \<or> i + j = 0"
    by (metis dvd_imp_le not_less neq0_conv)
  then show ?thesis using le by auto
qed

lemma probe_plain:
  assumes "p < 65536" "idx < p" "i < p"
  shows "probe p idx i = (idx + i * i) mod p"
proof -
  have "i * i \<le> 65534 * 65534" using assms by (intro mult_le_mono) simp_all
  then have "idx + i * i < 4294967296" using assms by simp
  then show ?thesis by (simp add: probe_def u32_def)
qed

lemma first_empty_iff:
  "first_empty T sz idx is \<noteq> None \<longleftrightarrow> (\<exists>i. i \<in> set is \<and> slot_isEmpty (T ! probe sz idx i))"
  by (induction "is") (auto simp: Let_def)

lemma insert_scan_Vacant:
  "insert_scan T sz idx k is = Vacant \<Longrightarrow> \<exists>i. i \<in> set is \<and> slot_isEmpty (T ! probe sz idx i)"
  by (induction "is") (auto simp: Let_def split: if_splits)

lemma occ_replicate: "occ (replicate n None) = {}"
  by (auto simp: occ_def slot_isEmpty_def)

lemma finite_occ: "finite (occ T)"
  by (simp add: occ_def)

lemma occ_put: "occ (put T j k v) \<subseteq> insert j (occ T)"
  by (auto simp: occ_def put_def nth_list_update split: if_splits)

lemma length_put: "length (put T j k v) = length T"
  by (simp add: put_def)

lemma card_occ_put: "card (occ (put T j k v)) \<le> Suc (card (occ T))"
proof -
  have "card (occ (put T j k v)) \<le> card (insert j (occ T))"
    by (intro card_mono) (simp_all add: finite_occ occ_put)
  also have "\<dots> \<le> Suc (card (occ T))"
    by (simp add: card_insert_le_m1 finite_occ card_insert_if)
  finally show ?thesis .
qed

lemma length_reinsert: "length (reinsert sz T kv) = length T"
  by (simp add: reinsert_def Let_def length_put split: option.splits)

lemma card_occ_reinsert: "card (occ (reinsert sz T kv)) \<le> Suc (card (occ T))"
  by (auto simp: reinsert_def Let_def card_occ_put split: option.splits)

lemma length_reinsert_all: "length (reinsert_all sz T kvs) = length T"
  by (induction kvs arbitrary: T) (simp_all add: length_reinsert)

lemma card_occ_reinsert_all: "card (occ (reinsert_all sz T kvs)) \<le> card (occ T) + length kvs"
proof (induction kvs arbitrary: T)
  case Nil
  then show ?case by simp
next
  case (Cons kv kvs)
  have "card (occ (reinsert_all sz (reinsert sz T kv) kvs)) \<le> card (occ (reinsert sz T kv)) + length kvs"
    by (rule Cons.IH)
  also have "\<dots> \<le> Suc (card (occ T)) + length kvs"
    using card_occ_reinsert [of sz T kv] by simp
  finally show ?case by simp
qed

lemma length_collect_le: "length (collect T) \<le> length T"
  by (induction T) (auto split: option.splits)

lemma room:
  assumes p: "isPrime p" and p3: "2 < p" and small: "p < 65536"
    and len: "length T = p" and few: "2 * card (occ T) < p" and idx: "idx < p"
  shows "\<exists>i. i < p \<and> slot_isEmpty (T ! probe p idx i)"
proof (rule ccontr)
  assume no: "\<not> (\<exists>i. i < p \<and> slot_isEmpty (T ! probe p idx i))"
  define h where "h = (p - 1) div 2"
  have hp: "2 * h < p" using p3 by (simp add: h_def)
  have odd: "odd p" using p p3 by (rule isPrime_odd)
  then have ph: "p = 2 * h + 1" using p3 by (auto simp: h_def elim: oddE)
  have inj: "inj_on (probe p idx) {0..h}"
  proof (rule inj_onI)
    fix i j assume i: "i \<in> {0..h}" and j: "j \<in> {0..h}" and e: "probe p idx i = probe p idx j"
    have ip: "i < p" and jp: "j < p" using i j hp by simp_all
    have e': "(idx + i * i) mod p = (idx + j * j) mod p"
      using e probe_plain [OF small idx ip] probe_plain [OF small idx jp] by simp
    have i2: "2 * i < p" and j2: "2 * j < p" using i j ph by simp_all
    show "i = j"
    proof (cases "j \<le> i")
      case True
      then show ?thesis using square_mod_inj [OF p _ i2 j2 True e'] p3 by simp
    next
      case False
      then have "i \<le> j" by simp
      then show ?thesis using square_mod_inj [OF p _ j2 i2 _ e' [symmetric]] p3 by simp
    qed
  qed
  have sub: "probe p idx ` {0..h} \<subseteq> occ T"
  proof
    fix x assume "x \<in> probe p idx ` {0..h}"
    then obtain i where i: "i \<le> h" and x: "x = probe p idx i" by auto
    have ip: "i < p" using i hp by simp
    have "x < p" using x p3 by (simp add: probe_def)
    moreover have "\<not> slot_isEmpty (T ! x)" using no ip x by blast
    ultimately show "x \<in> occ T" using len by (simp add: occ_def)
  qed
  have "card (probe p idx ` {0..h}) = h + 1" using inj by (simp add: card_image)
  moreover have "card (probe p idx ` {0..h}) \<le> card (occ T)"
    using sub by (intro card_mono) (simp_all add: finite_occ)
  ultimately show False using few ph by simp
qed


lemma store_False: "store ht index k v = (False, ht') \<Longrightarrow> ht' = ht"
  by (auto simp: store_def split: if_splits option.splits)

lemma store_True:
  assumes "slot_isEmpty (table ht ! index)
           \<or> (\<exists>i. i < size_ht ht \<and> slot_isEmpty (table ht ! probe (size_ht ht) index i))"
  shows "fst (store ht index k v)"
proof (cases "slot_isEmpty (table ht ! index)")
  case True
  then show ?thesis by (simp add: store_def)
next
  case False
  then have "\<exists>i. i \<in> set [0..<size_ht ht] \<and> slot_isEmpty (table ht ! probe (size_ht ht) index i)"
    using assms by auto
  then have "first_empty (table ht) (size_ht ht) index [0..<size_ht ht] \<noteq> None"
    by (simp only: first_empty_iff)
  then show ?thesis using False by (auto simp: store_def)
qed

lemma checkRehash_cases:
  assumes inv: "ht_inv ht"
  shows "\<exists>ht' index'. checkRehash (count_up ht) index k = Inr (ht', index')
           \<and> ((table ht' = table ht \<and> size_ht ht' = size_ht ht \<and> index' = index)
               \<or> (length (table ht') = size_ht ht' \<and> isPrime (size_ht ht') \<and> 2 < size_ht ht'
                   \<and> size_ht ht' < 65536 \<and> 2 * card (occ (table ht')) < size_ht ht'
                   \<and> index' < size_ht ht'))"
proof -
  define n where "n = elementCount_ht ht"
  define p where "p = nextPrime (2 * size_ht ht)"
  have len: "length (table ht) = size_ht ht" and pos: "0 < size_ht ht"
    and pr: "isPrime (size_ht ht)" and cnt: "n = length (collect (table ht))"
    and small: "p < 65536"
    using inv by (simp_all add: ht_inv_def n_def p_def)
  have s2: "2 \<le> size_ht ht" using pos pr by (cases "size_ht ht = 1") (auto simp: isPrime_def)
  have pge: "2 * size_ht ht \<le> p" unfolding p_def by (rule nextPrime_ge)
  have pp: "isPrime p" unfolding p_def by (rule nextPrime_isPrime)
  have p3: "2 < p" using pge s2 by simp
  have "odd p" using pp p3 by (rule isPrime_odd)
  then have pgt: "2 * size_ht ht < p" using pge by (cases "2 * size_ht ht = p") auto
  have nle: "n \<le> size_ht ht" using cnt len length_collect_le [of "table ht"] by simp
  then have "n + 4294967296 < 4294967296 + 4294967296" using pge small by simp
  then have dec: "dec32 (n + 1) = n" by (simp add: dec32_def u32_def)
  show ?thesis
  proof (cases "size_ht ht \<le> 2 * (n + 1)")
    case False
    then show ?thesis
      by (simp add: checkRehash_def count_up_def Let_def n_def)
  next
    case True
    define T where "T = reinsert_all p (replicate p None) (collect (table ht))"
    have r: "checkRehash (count_up ht) index k =
             Inr (count_up ht\<lparr>table := T, size_ht := p\<rparr>, k mod p)"
      using True dec cnt
      by (simp add: checkRehash_def count_up_def Let_def n_def [symmetric] p_def [symmetric] T_def)
    have lT: "length T = p" by (simp add: T_def length_reinsert_all)
    have "card (occ T) \<le> card (occ (replicate p (None :: 'a Pair option))) + length (collect (table ht))"
      unfolding T_def by (rule card_occ_reinsert_all)
    then have "card (occ T) \<le> size_ht ht" using cnt nle by (simp add: occ_replicate)
    then have few: "2 * card (occ T) < p" using pgt by simp
    show ?thesis
      using r lT pp p3 small few by (simp add: count_up_def)
  qed
qed

lemma length_collect_filter:
  "length (collect T) = length (filter (\<lambda>s. \<not> slot_isEmpty s) T)"
  by (induction T) (auto simp: slot_isEmpty_def split: option.splits)

lemma length_collect_occ: "length (collect T) = card (occ T)"
  by (simp add: length_collect_filter length_filter_conv_card occ_def)

lemma occ_put_empty:
  assumes "j < length T" "slot_isEmpty (T ! j)"
  shows "card (occ (put T j k v)) = Suc (card (occ T))"
proof -
  have "occ (put T j k v) = insert j (occ T)"
    using assms(1) by (auto simp: occ_def put_def nth_list_update slot_isEmpty_def)
  moreover have "j \<notin> occ T" using assms(2) by (simp add: occ_def)
  ultimately show ?thesis by (simp add: finite_occ)
qed

lemma occ_update_same:
  assumes "slot_isEmpty s = slot_isEmpty (T ! j)"
  shows "occ (T[j := s]) = occ T"
  using assms by (auto simp: occ_def) (metis nth_list_update_eq nth_list_update_neq)+

lemma occ_update_cleared:
  assumes "j < length T" "\<not> slot_isEmpty (T ! j)" "slot_isEmpty s"
  shows "card (occ (T[j := s])) = card (occ T) - 1"
proof -
  have "occ (T[j := s]) = occ T - {j}"
    using assms(1,3) by (auto simp: occ_def nth_list_update)
  moreover have "j \<in> occ T" using assms(1,2) by (simp add: occ_def)
  ultimately show ?thesis by (simp add: finite_occ)
qed

lemma probe_less: "0 < sz \<Longrightarrow> probe sz idx i < sz"
  by (simp add: probe_def)

lemma first_empty_Some:
  "first_empty T sz idx is = Some j \<Longrightarrow>
   slot_isEmpty (T ! j) \<and> (\<exists>i. i \<in> set is \<and> j = probe sz idx i)"
  by (induction "is") (auto simp: Let_def split: if_splits)

lemma insert_scan_Exhausted:
  "insert_scan T sz idx k is = Exhausted \<Longrightarrow> first_empty T sz idx is = None"
  by (induction "is") (auto simp: Let_def split: if_splits)

lemma locate_loop_less:
  "0 < sz \<Longrightarrow> locate_loop T sz idx k is = Some j \<Longrightarrow> j < sz"
  by (induction "is") (auto simp: Let_def probe_less split: if_splits)

lemma locate_less: "0 < size_ht ht \<Longrightarrow> locate ht k = Some j \<Longrightarrow> j < size_ht ht"
  by (auto simp: locate_def Let_def locate_loop_less split: if_splits)

lemma store_result:
  assumes "0 < size_ht ht" "length (table ht) = size_ht ht" "index < size_ht ht"
    and "store ht index k v = (b, ht')"
  shows "size_ht ht' = size_ht ht \<and> elementCount_ht ht' = elementCount_ht ht
         \<and> length (table ht') = length (table ht)
         \<and> (b \<longrightarrow> card (occ (table ht')) = Suc (card (occ (table ht))))
         \<and> (\<not> b \<longrightarrow> ht' = ht)"
proof (cases "slot_isEmpty (table ht ! index)")
  case True
  then show ?thesis
    using assms by (auto simp: store_def length_put occ_put_empty)
next
  case False
  show ?thesis
  proof (cases "first_empty (table ht) (size_ht ht) index [0..<size_ht ht]")
    case None
    then show ?thesis using False assms(4) by (auto simp: store_def)
  next
    case (Some j)
    then have "slot_isEmpty (table ht ! j)" and "j < length (table ht)"
      using first_empty_Some [OF Some] assms(1,2) by (auto simp: probe_less)
    then show ?thesis
      using False Some assms(4) by (auto simp: store_def length_put occ_put_empty)
  qed
qed

lemma reinsert_room:
  assumes "isPrime p" "2 < p" "p < 65536" "length T = p" "2 * card (occ T) < p"
  shows "card (occ (reinsert p T kv)) = Suc (card (occ T))"
proof (cases "slot_isEmpty (T ! (fst kv mod p))")
  case True
  then show ?thesis using assms by (simp add: reinsert_def Let_def occ_put_empty)
next
  case False
  have "fst kv mod p < p" using assms(2) by simp
  then have "\<exists>i. i < p \<and> slot_isEmpty (T ! probe p (fst kv mod p) i)"
    using assms by (intro room) simp_all
  then have "first_empty T p (fst kv mod p) [0..<p] \<noteq> None"
    using first_empty_iff [of T p "fst kv mod p" "[0..<p]"] by auto
  then obtain j where j: "first_empty T p (fst kv mod p) [0..<p] = Some j" by auto
  have p0: "0 < p" using assms(2) by simp
  have "slot_isEmpty (T ! j)" and "j < length T"
    using first_empty_Some [OF j] assms(4) probe_less [OF p0] by auto
  then show ?thesis using False j by (simp add: reinsert_def Let_def occ_put_empty)
qed

lemma reinsert_all_room:
  assumes "isPrime p" "2 < p" "p < 65536"
  shows "length T = p \<Longrightarrow> 2 * (card (occ T) + length kvs) \<le> p \<Longrightarrow>
         card (occ (reinsert_all p T kvs)) = card (occ T) + length kvs"
proof (induction kvs arbitrary: T)
  case Nil
  then show ?case by simp
next
  case (Cons kv kvs)
  have c: "card (occ (reinsert p T kv)) = Suc (card (occ T))"
    using assms Cons.prems by (intro reinsert_room) simp_all
  have "card (occ (reinsert_all p (reinsert p T kv) kvs)) = card (occ (reinsert p T kv)) + length kvs"
    using Cons.prems c by (intro Cons.IH) (simp_all add: length_reinsert)
  then show ?case using c by simp
qed

lemma checkRehash_count:
  assumes inv: "ht_inv ht" and cr: "checkRehash (count_up ht) index k = Inr (h1, i1)"
  shows "elementCount_ht h1 = Suc (elementCount_ht ht)
         \<and> card (occ (table h1)) = elementCount_ht ht
         \<and> length (table h1) = size_ht h1 \<and> 0 < size_ht h1 \<and> isPrime (size_ht h1)"
proof -
  define n where "n = elementCount_ht ht"
  define p where "p = nextPrime (2 * size_ht ht)"
  have len: "length (table ht) = size_ht ht" and pos: "0 < size_ht ht"
    and pr: "isPrime (size_ht ht)" and cnt: "n = length (collect (table ht))"
    and small: "p < 65536"
    using inv by (simp_all add: ht_inv_def n_def p_def)
  have s2: "2 \<le> size_ht ht" using pos pr by (cases "size_ht ht = 1") (auto simp: isPrime_def)
  have pge: "2 * size_ht ht \<le> p" unfolding p_def by (rule nextPrime_ge)
  have pp: "isPrime p" unfolding p_def by (rule nextPrime_isPrime)
  have p3: "2 < p" using pge s2 by simp
  have nle: "n \<le> size_ht ht" using cnt len length_collect_le [of "table ht"] by simp
  then have "n + 4294967296 < 4294967296 + 4294967296" using pge small by simp
  then have dec: "dec32 (n + 1) = n" by (simp add: dec32_def u32_def)
  show ?thesis
  proof (cases "size_ht ht \<le> 2 * (n + 1)")
    case False
    then have "h1 = count_up ht"
      using cr by (simp add: checkRehash_def count_up_def Let_def n_def)
    then show ?thesis
      using len pos pr cnt by (simp add: count_up_def length_collect_occ n_def)
  next
    case True
    define T where "T = reinsert_all p (replicate p None) (collect (table ht))"
    have r: "h1 = count_up ht\<lparr>table := T, size_ht := p\<rparr>"
      using True dec cnt cr
      by (simp add: checkRehash_def count_up_def Let_def n_def [symmetric] p_def [symmetric] T_def)
    have lT: "length T = p" by (simp add: T_def length_reinsert_all)
    have "card (occ T) = card (occ (replicate p (None :: 'a Pair option))) + length (collect (table ht))"
      unfolding T_def using pp p3 small pge nle cnt
      by (intro reinsert_all_room) (simp_all add: occ_replicate)
    then have "card (occ T) = n" using cnt by (simp add: occ_replicate)
    then show ?thesis
      using r lT pp p3 by (simp add: count_up_def n_def)
  qed
qed


lemma insert_ht_cases:
  assumes inv: "ht_inv ht"
  shows "insert_ht ht k v = Inr (False, ht)
         \<or> (\<exists>h1 i1. checkRehash (count_up ht) (k mod size_ht ht) k = Inr (h1, i1)
               \<and> i1 < size_ht h1
               \<and> insert_ht ht k v = Inr (store h1 i1 k v)
               \<and> fst (store h1 i1 k v))"
proof -
  define index where "index = k mod size_ht ht"
  have pos: "0 < size_ht ht" using inv by (simp add: ht_inv_def)
  then have il: "index < size_ht ht" by (simp add: index_def)
  obtain h1 i1 where cr: "checkRehash (count_up ht) index k = Inr (h1, i1)"
    and alt: "(table h1 = table ht \<and> size_ht h1 = size_ht ht \<and> i1 = index)
               \<or> (length (table h1) = size_ht h1 \<and> isPrime (size_ht h1) \<and> 2 < size_ht h1
                   \<and> size_ht h1 < 65536 \<and> 2 * card (occ (table h1)) < size_ht h1
                   \<and> i1 < size_ht h1)"
    using checkRehash_cases [OF inv, of index k] by blast
  have i1: "i1 < size_ht h1" using alt il by auto
  have rehashed: "fst (store h1 i1 k v)"
    if "length (table h1) = size_ht h1 \<and> isPrime (size_ht h1) \<and> 2 < size_ht h1
        \<and> size_ht h1 < 65536 \<and> 2 * card (occ (table h1)) < size_ht h1 \<and> i1 < size_ht h1"
    using room [of "size_ht h1" "table h1" i1] that by (intro store_True) blast
  show ?thesis
  proof (cases "slot_isEmpty (table ht ! index)")
    case True
    have "fst (store h1 i1 k v)"
      using alt
    proof
      assume "table h1 = table ht \<and> size_ht h1 = size_ht ht \<and> i1 = index"
      then show ?thesis using True by (intro store_True) simp
    next
      assume "length (table h1) = size_ht h1 \<and> isPrime (size_ht h1) \<and> 2 < size_ht h1
        \<and> size_ht h1 < 65536 \<and> 2 * card (occ (table h1)) < size_ht h1 \<and> i1 < size_ht h1"
      then show ?thesis by (rule rehashed)
    qed
    moreover have "insert_ht ht k v = Inr (store h1 i1 k v)"
      using True cr by (simp add: insert_ht_def Let_def index_def [symmetric] bind_e_def)
    ultimately show ?thesis using cr i1 by (auto simp: index_def)
  next
    case False
    show ?thesis
    proof (cases "insert_scan (table ht) (size_ht ht) index k [0..<size_ht ht]")
      case Duplicate
      then show ?thesis
        using False by (simp add: insert_ht_def Let_def index_def [symmetric])
    next
      case Exhausted
      then have "first_empty (table ht) (size_ht ht) index [0..<size_ht ht] = None"
        by (rule insert_scan_Exhausted)
      then have "store ht index k v = (False, ht)"
        using False by (simp add: store_def)
      then show ?thesis
        using False Exhausted by (simp add: insert_ht_def Let_def index_def [symmetric])
    next
      case Vacant
      then obtain i where i: "i < size_ht ht"
        and e: "slot_isEmpty (table ht ! probe (size_ht ht) index i)"
        using insert_scan_Vacant [OF Vacant] by auto
      have "fst (store h1 i1 k v)"
        using alt
      proof
        assume "table h1 = table ht \<and> size_ht h1 = size_ht ht \<and> i1 = index"
        then show ?thesis using i e by (intro store_True) auto
      next
        assume "length (table h1) = size_ht h1 \<and> isPrime (size_ht h1) \<and> 2 < size_ht h1
          \<and> size_ht h1 < 65536 \<and> 2 * card (occ (table h1)) < size_ht h1 \<and> i1 < size_ht h1"
        then show ?thesis by (rule rehashed)
      qed
      moreover have "insert_ht ht k v = Inr (store h1 i1 k v)"
        using False Vacant cr by (simp add: insert_ht_def Let_def index_def [symmetric] bind_e_def)
      ultimately show ?thesis using cr i1 by (auto simp: index_def)
    qed
  qed
qed


lemma insert_ht_defined:
  assumes inv: "ht_inv ht"
  shows "\<exists>b ht'. insert_ht ht k v = Inr (b, ht')"
  using insert_ht_cases [OF inv, of k v] by (metis surj_pair)

lemma insert_ht_inv:
  assumes inv: "ht_inv ht" and res: "insert_ht ht k v = Inr (b, ht')"
  shows "length (table ht') = size_ht ht' \<and> 0 < size_ht ht' \<and> isPrime (size_ht ht')
         \<and> elementCount_ht ht' = length (collect (table ht'))"
  using insert_ht_cases [OF inv, of k v]
proof
  assume "insert_ht ht k v = Inr (False, ht)"
  then have "ht' = ht" using res by simp
  then show ?thesis using inv by (simp add: ht_inv_def)
next
  assume "\<exists>h1 i1. checkRehash (count_up ht) (k mod size_ht ht) k = Inr (h1, i1)
               \<and> i1 < size_ht h1
               \<and> insert_ht ht k v = Inr (store h1 i1 k v)
               \<and> fst (store h1 i1 k v)"
  then obtain h1 i1 where cr: "checkRehash (count_up ht) (k mod size_ht ht) k = Inr (h1, i1)"
    and i1: "i1 < size_ht h1" and ins: "insert_ht ht k v = Inr (store h1 i1 k v)"
    and ok: "fst (store h1 i1 k v)"
    by blast
  have st: "store h1 i1 k v = (b, ht')" using ins res by simp
  then have b: "b" using ok by simp
  note c = checkRehash_count [OF inv cr]
  have r: "size_ht ht' = size_ht h1 \<and> elementCount_ht ht' = elementCount_ht h1
         \<and> length (table ht') = length (table h1)
         \<and> (b \<longrightarrow> card (occ (table ht')) = Suc (card (occ (table h1))))
         \<and> (\<not> b \<longrightarrow> ht' = h1)"
    using c i1 st by (intro store_result [of h1 i1 k v]) simp_all
  show ?thesis
    using r b c by (simp add: length_collect_occ)
qed

lemma update_ht_inv:
  assumes "ht_inv ht"
  shows "ht_inv (snd (update_ht ht k v))"
proof (cases "locate ht k")
  case None
  then show ?thesis using assms by (simp add: update_ht_def)
next
  case (Some j)
  have "slot_isEmpty (map_option (\<lambda>p. p\<lparr>val := v\<rparr>) (table ht ! j)) = slot_isEmpty (table ht ! j)"
    by (cases "table ht ! j") (simp_all add: slot_isEmpty_def)
  then have "occ ((table ht)[j := map_option (\<lambda>p. p\<lparr>val := v\<rparr>) (table ht ! j)]) = occ (table ht)"
    by (rule occ_update_same)
  then show ?thesis
    using assms Some by (simp add: update_ht_def ht_inv_def length_collect_occ)
qed

lemma remove_ht_inv:
  assumes "ht_inv ht"
  shows "ht_inv (snd (remove_ht ht k))"
proof (cases "locate ht k")
  case None
  then show ?thesis using assms by (simp add: remove_ht_def)
next
  case (Some j)
  define n where "n = elementCount_ht ht"
  have len: "length (table ht) = size_ht ht" and pos: "0 < size_ht ht"
    and cnt: "n = card (occ (table ht))" and small: "nextPrime (2 * size_ht ht) < 65536"
    using assms by (simp_all add: ht_inv_def length_collect_occ n_def)
  have j: "j < length (table ht)" using locate_less [OF pos Some] len by simp
  have "slot_holds (table ht ! j) k" using Some by (rule locate_holds)
  then have full: "\<not> slot_isEmpty (table ht ! j)"
    by (auto simp: slot_holds_def slot_isEmpty_def split: option.splits)
  have emp: "slot_isEmpty (map_option (\<lambda>p. p\<lparr>isEmpty := True\<rparr>) (table ht ! j))"
    by (cases "table ht ! j") (simp_all add: slot_isEmpty_def)
  have c: "card (occ ((table ht)[j := map_option (\<lambda>p. p\<lparr>isEmpty := True\<rparr>) (table ht ! j)])) = n - 1"
    using occ_update_cleared [OF j full emp] cnt by simp
  have "j \<in> occ (table ht)" using j full by (simp add: occ_def)
  then have n0: "0 < n" using cnt finite_occ [of "table ht"] by (auto simp: card_gt_0_iff)
  have "n \<le> size_ht ht"
    using cnt len length_collect_le [of "table ht"] by (simp add: length_collect_occ)
  moreover have "2 * size_ht ht \<le> nextPrime (2 * size_ht ht)" by (rule nextPrime_ge)
  ultimately have "n < 65536" using small by simp
  then have lt: "n - 1 < 4294967296" by simp
  have "n + 4294967295 = (n - 1) + 4294967296" using n0 by simp
  then have "(n + 4294967295) mod 4294967296 = (n - 1) mod 4294967296"
    by (simp only: mod_add_self2)
  then have dec: "dec32 n = n - 1" using lt by (simp add: dec32_def u32_def)
  show ?thesis
    using assms Some c dec
    by (simp add: remove_ht_def ht_inv_def length_collect_occ n_def)
qed

lemma HashTable_new_inv:
  assumes "HashTable_new n = Inr ht" "nextPrime (2 * n) < 65536"
  shows "ht_inv ht"
proof -
  have "collect (replicate n (None :: 'a Pair option)) = []"
    by (induction n) simp_all
  then show ?thesis
    using assms by (auto simp: HashTable_new_def ht_inv_def split: if_splits)
qed








section \<open>Claims\<close>

text \<open>
  Claim C1 (index bijection after every public operation). The code breaks the invariant.
  On a queue of capacity 3 the calls insert 1, insert 5, insert 3, deleteMin, deleteMin all
  return true, and the invariant holds before the last one. In the second \<^verbatim>\<open>deleteMin\<close> the count drops to 1, \<^verbatim>\<open>percolateDown\<close> runs
  with \<open>baseCase\<close> set and compares the root (key 5) with slots 2 and 3, which are no
  longer occupied; slot 3 still holds key 3 of the element deleted just before, so the
  root is exchanged with it. Afterwards the only occupied slot holds the deleted key 3,
  which the hash index does not contain, and the hash index maps the live key 5 to slot 3.
\<close>

theorem deleteMin_breaks_index_bijection:
  "\<exists>pq0 pq.
      session 3 [Insert 1 a, Insert 5 b, Insert 3 c, DeleteMin] = Inr ([True, True, True, True], pq0)
    \<and> heap_keys pq0 = [Inr 3, Inr 5]
    \<and> index_bijection pq0
    \<and> deleteMin pq0 = Inr (True, pq)
    \<and> numElements pq = 1
    \<and> deref_key pq (getMinKey pq) = Inr 3
    \<and> get_ht (data pq) 3 = None
    \<and> get_ht (data pq) 5 = Some 3
    \<and> \<not> index_bijection pq"
  by (simp add: ht_eval pq_eval inv_eval cong: bind_e_weak_cong Let_weak_cong)

text \<open>
  Claim C2 (min-heap order in every reachable state). The code breaks the invariant. The
  loop condition of \<^verbatim>\<open>percolateDown\<close> tests \<^verbatim>\<open>leftChild(index) < elementCount\<close>, so a
  left child in the last occupied slot is never compared. After inserting 1, 2, 3, 4, 5
  the heap is ordered; after one \<^verbatim>\<open>deleteMin\<close> the occupied slots hold 2, 5, 3, 4: slot 4
  holds key 4 below its parent slot 2 with key 5.
\<close>

theorem deleteMin_breaks_heap_order:
  "\<exists>pq0 pq.
      session 5 [Insert 1 a, Insert 2 b, Insert 3 c, Insert 4 d, Insert 5 e] =
        Inr ([True, True, True, True, True], pq0)
    \<and> heap_keys pq0 = [Inr 1, Inr 2, Inr 3, Inr 4, Inr 5]
    \<and> heap_order pq0
    \<and> deleteMin pq0 = Inr (True, pq)
    \<and> heap_keys pq = [Inr 2, Inr 5, Inr 3, Inr 4]
    \<and> \<not> ordered_at pq 4
    \<and> \<not> heap_order pq"
  by (simp add: ht_eval pq_eval inv_eval cong: bind_e_weak_cong Let_weak_cong)

text \<open>
  Claim C3 (the priority-queue scenario on a queue of capacity 14). All calls return true.
  After the thirteen inserts the minimum is 18; after \<^verbatim>\<open>deleteMin\<close> it is 20;
  \<^verbatim>\<open>remove(24)\<close> takes the count from 12 to 11 and leaves the heap ordered;
  \<^verbatim>\<open>increaseKey(20,100)\<close> replaces key 20 by 120 and the minimum becomes 27, the smallest
  key left; \<^verbatim>\<open>remove(98)\<close> succeeds; \<^verbatim>\<open>decreaseKey(120,119)\<close> replaces key 120 by 1,
  which is the new minimum. The keys of the occupied slots are given after every step;
  heap order and index bijection hold after each of them.
\<close>

theorem priority_queue_scenario:
  "\<exists>q0 q1 q2 q3 q4 q5.
      session 14 (map (\<lambda>k. Insert k v) [18, 27, 20, 34, 30, 24, 99, 45, 80, 65, 78, 98, 97]) =
        Inr (replicate 13 True, q0)
    \<and> heap_keys q0 = map Inr [18, 27, 20, 34, 30, 24, 99, 45, 80, 65, 78, 98, 97]
    \<and> deref_key q0 (getMinKey q0) = Inr 18
    \<and> Min (set [18, 27, 20, 34, 30, 24, 99, 45, 80, 65, 78, 98, 97]) = (18 :: nat)
    \<and> deleteMin q0 = Inr (True, q1)
    \<and> heap_keys q1 = map Inr [20, 27, 24, 34, 30, 97, 99, 45, 80, 65, 78, 98]
    \<and> deref_key q1 (getMinKey q1) = Inr 20
    \<and> Min (set [20, 27, 24, 34, 30, 97, 99, 45, 80, 65, 78, 98]) = (20 :: nat)
    \<and> remove_pq q1 24 = Inr (True, q2)
    \<and> numElements q1 = 12 \<and> numElements q2 = 11
    \<and> heap_keys q2 = map Inr [20, 27, 97, 34, 30, 98, 99, 45, 80, 65, 78]
    \<and> heap_order q2
    \<and> increaseKey q2 20 100 = Inr (True, q3)
    \<and> get_ht (data q3) 20 = None \<and> get_ht (data q3) 120 = Some 10
    \<and> heap_keys q3 = map Inr [27, 30, 97, 34, 65, 98, 99, 45, 80, 120, 78]
    \<and> deref_key q3 (getMinKey q3) = Inr 27
    \<and> Min (set [27, 30, 97, 34, 65, 98, 99, 45, 80, 120, 78]) = (27 :: nat)
    \<and> remove_pq q3 98 = Inr (True, q4)
    \<and> heap_keys q4 = map Inr [27, 30, 78, 34, 65, 97, 99, 45, 80, 120]
    \<and> decreaseKey q4 120 119 = Inr (True, q5)
    \<and> get_ht (data q5) 120 = None \<and> get_ht (data q5) 1 = Some 1
    \<and> heap_keys q5 = map Inr [1, 27, 78, 34, 30, 97, 99, 45, 80, 65]
    \<and> deref_key q5 (getMinKey q5) = Inr 1
    \<and> Min (set [1, 27, 78, 34, 30, 97, 99, 45, 80, 65]) = (1 :: nat)
    \<and> list_all heap_order [q0, q1, q2, q3, q4, q5]
    \<and> list_all index_bijection [q0, q1, q2, q3, q4, q5]"
  by (simp add: ht_eval pq_eval inv_eval cong: bind_e_weak_cong Let_weak_cong)



text \<open>
  Claim C5 (the rehash scenario on a table of size 7). Inserting keys 2, 7, 5, 9, 8, 6 with
  any values succeeds six times; the table size after the calls is 7, 7, 7, 17, 17, 17, so
  the table is rehashed once, by the insert of 9. 17 is the first prime from \<open>2 * 7\<close>
  on. At that insert \<^verbatim>\<open>checkRehash\<close> collects the pairs in bucket order (7, 2, 5),
  reinserts them into the new table of size 17 and returns the new home index of the
  pending key, which is stored afterwards. At the end the six keys are found with their
  values and the count is 6.
\<close>

theorem rehash_scenario:
  "\<exists>t3 t4 ht.
      bind_e (HashTable_new 7) (\<lambda>t. insert_trace t [(2, a), (7, b), (5, c)]) =
        Inr ([(True, 7), (True, 7), (True, 7)], t3)
    \<and> collect (table t3) = [(7, b), (2, a), (5, c)]
    \<and> checkRehash (count_up t3) (9 mod 7) 9 = Inr (t4, 9)
    \<and> table t4 = reinsert_all 17 (replicate 17 None) [(7, b), (2, a), (5, c)]
    \<and> collect (table t4) = [(2, a), (5, c), (7, b)]
    \<and> insert_ht t3 9 d = Inr (store t4 9 9 d)
    \<and> bind_e (HashTable_new 7)
          (\<lambda>t. insert_trace t [(2, a), (7, b), (5, c), (9, d), (8, e), (6, f)]) =
        Inr ([(True, 7), (True, 7), (True, 7), (True, 17), (True, 17), (True, 17)], ht)
    \<and> tableSize ht = 17
    \<and> nextPrime (2 * 7) = 17
    \<and> list_all (\<lambda>n. \<not> isPrime n) [14, 15, 16]
    \<and> numElements_ht ht = 6
    \<and> map (get_ht ht) [2, 7, 5, 9, 8, 6] = [Some a, Some b, Some c, Some d, Some e, Some f]"
  by (simp add: ht_eval cong: bind_e_weak_cong Let_weak_cong)

text \<open>
  Claim C6 (tie-breaking in percolateDown), as stated: when both children have equal keys
  smaller than the key of slot \<open>i\<close>, the exchange is with the right child. This fails on
  the code: the test is \<^verbatim>\<open>heap[leftChild].key > heap[rightChild].key\<close>, which is false
  on a tie, so the left child is taken. In the state reached below slot 1 holds key 10 and
  slots 2 and 3 both hold key 3; \<^verbatim>\<open>percolateDown(1)\<close> ends at slot 2, the left child, and
  \<^verbatim>\<open>increaseKey(2, 8)\<close> leaves the keys 3, 10, 3.
\<close>

theorem percolateDown_tie_goes_left:
  "\<exists>pq h pq1 pq2.
      session 3 [Insert 1 0, Insert 5 0, Insert 3 0, DeleteMin, DeleteMin, Insert 3 0, Insert 2 (0 :: nat)] =
        Inr ([True, True, True, True, True, True, True], pq)
    \<and> numElements pq = 3
    \<and> heap_keys pq = [Inr 2, Inr 3, Inr 3]
    \<and> modify_key (heap pq) 1 (\<lambda>x. u32 (x + 8)) = Inr h
    \<and> map (key_at h) [1, leftChild 1, rightChild 1] = [Inr 10, Inr 3, Inr 3]
    \<and> pq\<lparr>heap := h, data := snd (remove_ht (data pq) 2)\<rparr> = tie_state
    \<and> percolateDown tie_state 1 = Inr (pq1, leftChild 1)
    \<and> leftChild 1 \<noteq> rightChild 1
    \<and> increaseKey pq 2 8 = Inr (True, pq2)
    \<and> heap_keys pq2 = [Inr 3, Inr 10, Inr 3]"
  by (simp add: ht_eval pq_eval tie_state_def cong: bind_e_weak_cong Let_weak_cong)

text \<open>
  Claim C6, amended: whenever the loop of \<^verbatim>\<open>percolateDown\<close> exchanges slot \<open>index\<close>
  downward, the exchange is with the right child exactly when the key of the right child is
  strictly smaller than the key of the left child; otherwise, in particular on a tie, it
  is with the left child, and the loop goes on from that child.
\<close>

theorem percolateDown_swap_partner:
  assumes "rightChild index < elementCount_pq pq \<or> leftChild index < elementCount_pq pq \<or> baseCase"
    and "key_at (heap pq) index = Inr ki"
    and "key_at (heap pq) (leftChild index) = Inr kl"
    and "key_at (heap pq) (rightChild index) = Inr kr"
    and "kl < ki \<or> kr < ki"
    and "0 < index"
  shows "percolateDown_loop pq index baseCase =
         percolateDown_loop
           (pq\<lparr>heap := swap_slots (heap pq) index (if kr < kl then rightChild index else leftChild index),
               data := snd (update_ht (data pq) (if kr < kl then kr else kl) index)\<rparr>)
           (if kr < kl then rightChild index else leftChild index) False"
proof -
  have "(if kr < kl then rightChild index else leftChild index) \<noteq> index"
    using assms(6) by (simp add: rightChild_def leftChild_def)
  then show ?thesis
    using assms(1-5)
    by (subst percolateDown_loop.simps) (simp add: Let_def)
qed

theorem percolateDown_swap_partner_witness:
  "(rightChild 1 < elementCount_pq tie_state \<or> leftChild 1 < elementCount_pq tie_state \<or> False)
   \<and> key_at (heap tie_state) 1 = Inr 10
   \<and> key_at (heap tie_state) (leftChild 1) = Inr 3
   \<and> key_at (heap tie_state) (rightChild 1) = Inr 3
   \<and> ((3 :: nat) < 10 \<or> (3 :: nat) < 10)
   \<and> (0 :: nat) < 1
   \<and> percolateDown_loop tie_state 1 False =
       percolateDown_loop
         (tie_state\<lparr>heap := swap_slots (heap tie_state) 1 (leftChild 1),
                    data := snd (update_ht (data tie_state) 3 1)\<rparr>)
         (leftChild 1) False"
proof -
  have a: "rightChild 1 < elementCount_pq tie_state \<or> leftChild 1 < elementCount_pq tie_state \<or> False"
    by (simp add: tie_state_def leftChild_def rightChild_def)
  have b: "key_at (heap tie_state) 1 = Inr 10"
    by (simp add: tie_state_def key_at_def)
  have c: "key_at (heap tie_state) (leftChild 1) = Inr 3"
    by (simp add: tie_state_def key_at_def leftChild_def)
  have d: "key_at (heap tie_state) (rightChild 1) = Inr 3"
    by (simp add: tie_state_def key_at_def rightChild_def)
  have e: "(3 :: nat) < 10 \<or> (3 :: nat) < 10" by simp
  have f: "(0 :: nat) < 1" by simp
  show ?thesis
    using a b c d e f percolateDown_swap_partner [OF a b c d e f]
    by simp
qed

text \<open>
  Claim C7 (percolateDown touches only occupied slots). The code reads other slots. With
  \<open>elementCount \<le> 2\<close> the flag \<open>baseCase\<close> lets the first test of the loop read the
  keys of slots \<open>2 * index\<close> and \<open>2 * index + 1\<close> whether or not they exist. On a queue
  of capacity 1 the heap array has two cells; after one insert, \<^verbatim>\<open>deleteMin\<close> calls
  \<^verbatim>\<open>percolateDown(1)\<close> with count 0, which reads \<^verbatim>\<open>heap[2]\<close>, past the end of the array.
  On a queue of capacity 2 holding two elements, \<^verbatim>\<open>deleteMin\<close> reads \<^verbatim>\<open>heap[3]\<close> of a
  three-cell array.
\<close>

theorem percolateDown_reads_out_of_bounds:
  "(\<exists>pq. session 1 [Insert 7 a] = Inr ([True], pq)
         \<and> length (heap pq) = 2
         \<and> percolateDown (pq\<lparr>elementCount_pq := 0\<rparr>) 1 = Inl OutOfBounds
         \<and> deleteMin pq = Inl OutOfBounds)
   \<and> session 2 [Insert 7 a, Insert 9 b, DeleteMin] = Inl OutOfBounds"
  by (simp add: ht_eval pq_eval cong: bind_e_weak_cong Let_weak_cong)

text \<open>
  Claim C8 (level-order print format), as stated: elements of one level are separated by
  exactly one space and nothing else, and every level, full or not, ends with a newline.
  This fails on the code for a last level that is not full: the loop writes a space after
  every element that does not complete a level, so such a level ends with a space before
  its newline. For the queue holding (1,7) and (2,8) the output has the line
  \<open>(2,8)\<close> followed by a space.
\<close>

theorem print_trailing_space:
  "session 3 [Insert 1 7, Insert 2 8] = Inr ([True, True], printed_queue)
   \<and> heap_pairs printed_queue = [Inr (1, 7), Inr (2, 8)]
   \<and> print_pq show_nat printed_queue [] = Inr (''(1,7)'' @ endl @ ''(2,8) '' @ endl)
   \<and> format_spec show_nat [(1, 7), (2, 8)] = ''(1,7)'' @ endl @ ''(2,8)'' @ endl
   \<and> print_pq show_nat printed_queue [] \<noteq> Inr (format_spec show_nat [(1, 7), (2, 8)])"
  by (simp add: ht_eval pq_eval print_eval printed_queue_def cong: bind_e_weak_cong Let_weak_cong)

text \<open>
  Claim C8, amended: the output renders the occupied slots in array order as
  \<open>(key,payload)\<close>, in levels of sizes 1, 2, 4, ...; in a full level the elements are
  separated by single spaces and the level ends with a newline; in a last level that is
  not full every element, including the last, is followed by one space, and the level
  ends with a newline. The theorem holds for every queue whose occupied slots can be read.
\<close>

theorem print_format:
  assumes "heap_pairs pq = map Inr kvs"
  shows "print_pq showv pq os = Inr (os @ format_code showv kvs)"
  using print_loop_out [OF assms, of 0 showv 0 1 os]
    rendered_levels [of 1 "map (show_pair showv) kvs"]
  by (auto simp: print_pq_def bind_e_def format_code_def rendered_def split: if_splits)

theorem print_format_witness:
  "heap_pairs printed_queue = map Inr [(1, 7), (2, 8)]
   \<and> print_pq show_nat printed_queue [] = Inr ([] @ format_code show_nat [(1, 7), (2, 8)])
   \<and> format_code show_nat [(1, 7), (2, 8)] = ''(1,7)'' @ endl @ ''(2,8) '' @ endl"
proof -
  have a: "heap_pairs printed_queue = map Inr [(1, 7), (2, 8)]"
    by (simp add: pq_eval ht_eval printed_queue_def)
  have b: "format_code show_nat [(1, 7), (2, 8)] = ''(1,7)'' @ endl @ ''(2,8) '' @ endl"
    by (simp add: ht_eval print_eval)
  show ?thesis
    using a b print_format [OF a, of show_nat "[]"] by simp
qed

text \<open>
  Claim C9 (getMinKey and getMinValue never return a null pointer). Both return the
  address of a field of slot 1 whatever the queue holds, so the result is the same for
  every queue. On a freshly constructed queue, which is empty, slot 1 was never written
  and its key and value are indeterminate. On a queue emptied by \<^verbatim>\<open>deleteMin\<close> slot 1
  still holds the last key and value.
\<close>

theorem getMin_pointers_never_null:
  "getMinKey pq \<noteq> NullKey \<and> getMinValue pq \<noteq> NullValue
   \<and> getMinKey pq = KeyField 1 \<and> getMinValue pq = ValueField 1
   \<and> getMinKey pq = getMinKey pq' \<and> getMinValue pq = getMinValue pq'
   \<and> (PriorityQueue_new m = Inr fresh \<longrightarrow>
        numElements fresh = 0
        \<and> deref_key fresh (getMinKey fresh) = Inl Uninitialised
        \<and> deref_value fresh (getMinValue fresh) = Inl Uninitialised)
   \<and> (\<exists>used. session 3 [Insert 1 a, Insert 2 b, Insert 3 c, DeleteMin, DeleteMin, DeleteMin] =
               Inr ([True, True, True, True, True, True], used)
             \<and> numElements used = 0
             \<and> deref_key used (getMinKey used) = Inr 3
             \<and> deref_value used (getMinValue used) = Inr c)"
proof -
  have fresh: "PriorityQueue_new m = Inr fresh \<longrightarrow>
        numElements fresh = 0
        \<and> deref_key fresh (getMinKey fresh) = Inl Uninitialised
        \<and> deref_value fresh (getMinValue fresh) = Inl Uninitialised"
    by (auto simp: PriorityQueue_new_def bind_e_def numElements_def getMinKey_def getMinValue_def
        key_at_def val_at_def split: sum.splits if_splits)
  have used: "\<exists>used. session 3 [Insert 1 a, Insert 2 b, Insert 3 c, DeleteMin, DeleteMin, DeleteMin] =
               Inr ([True, True, True, True, True, True], used)
             \<and> numElements used = 0
             \<and> deref_key used (getMinKey used) = Inr 3
             \<and> deref_value used (getMinValue used) = Inr c"
    by (simp add: ht_eval pq_eval cong: bind_e_weak_cong Let_weak_cong)
  show ?thesis
    using fresh used by (simp add: getMinKey_def getMinValue_def)
qed

theorem getMin_pointers_never_null_witness:
  "PriorityQueue_new 3 = Inr empty_queue
   \<and> numElements empty_queue = 0
   \<and> deref_key empty_queue (getMinKey empty_queue) = Inl Uninitialised
   \<and> deref_value empty_queue (getMinValue empty_queue) = (Inl Uninitialised :: error + nat)"
proof -
  have new: "PriorityQueue_new 3 = Inr empty_queue"
    by (simp add: ht_eval pq_eval empty_queue_def cong: bind_e_weak_cong Let_weak_cong)
  show ?thesis
    using new getMin_pointers_never_null [of empty_queue empty_queue 3 empty_queue 0 0 0]
    by blast
qed

text \<open>
  Claim C10 (lookups are not cut short by deletions). The search shared by \<^verbatim>\<open>get\<close>,
  \<^verbatim>\<open>update\<close> and \<^verbatim>\<open>remove\<close> never tests for an empty bucket: a key is found exactly
  when its home bucket or one of the buckets \<open>probe size home i\<close>, \<open>i < size\<close>, holds
  it. Hence for every table, reachable or not, and every call \<^verbatim>\<open>remove(k)\<close>, each other
  key that \<^verbatim>\<open>get\<close> found before is found afterwards with the same value.
\<close>

theorem lookup_survives_remove:
  "(k' \<noteq> k \<longrightarrow> get_ht ht k' = Some v \<longrightarrow> get_ht (snd (remove_ht ht k)) k' = Some v)
   \<and> (get_ht ht k' \<noteq> None \<longleftrightarrow>
        slot_holds (table ht ! (k' mod size_ht ht)) k'
        \<or> (\<exists>i. i < size_ht ht \<and> slot_holds (table ht ! probe (size_ht ht) (k' mod size_ht ht) i) k'))"
proof (intro conjI impI)
  assume ne: "k' \<noteq> k" and g: "get_ht ht k' = Some v"
  then obtain j where j: "locate ht k' = Some j"
    by (auto simp: get_ht_def split: option.splits)
  have "locate (snd (remove_ht ht k)) k' = Some j"
    by (simp add: remove_keeps_locate [OF ne] j)
  moreover have "table (snd (remove_ht ht k)) ! j = table ht ! j"
    using remove_keeps_slot [OF ne j] .
  ultimately show "get_ht (snd (remove_ht ht k)) k' = Some v"
    using g j by (simp add: get_ht_def)
next
  show "get_ht ht k' \<noteq> None \<longleftrightarrow>
        slot_holds (table ht ! (k' mod size_ht ht)) k'
        \<or> (\<exists>i. i < size_ht ht \<and> slot_holds (table ht ! probe (size_ht ht) (k' mod size_ht ht) i) k')"
    unfolding get_ht_iff_locate
    by (auto simp: locate_def Let_def locate_loop_iff simp del: not_None_eq)
qed

theorem lookup_survives_remove_witness:
  "(9 :: nat) \<noteq> 2
   \<and> get_ht \<lparr>table = [None, None, Some \<lparr>key = 2, val = 20 :: nat, isEmpty = False\<rparr>,
                      Some \<lparr>key = 9, val = 90, isEmpty = False\<rparr>, None, None, None],
             size_ht = 7, elementCount_ht = 2\<rparr> 9 = Some 90
   \<and> slot_isEmpty (table (snd (remove_ht \<lparr>table = [None, None, Some \<lparr>key = 2, val = 20 :: nat, isEmpty = False\<rparr>,
                      Some \<lparr>key = 9, val = 90, isEmpty = False\<rparr>, None, None, None],
             size_ht = 7, elementCount_ht = 2\<rparr> 2)) ! (9 mod 7))
   \<and> get_ht (snd (remove_ht \<lparr>table = [None, None, Some \<lparr>key = 2, val = 20 :: nat, isEmpty = False\<rparr>,
                      Some \<lparr>key = 9, val = 90, isEmpty = False\<rparr>, None, None, None],
             size_ht = 7, elementCount_ht = 2\<rparr> 2)) 9 = Some 90"
proof -
  have g: "get_ht \<lparr>table = [None, None, Some \<lparr>key = 2, val = 20 :: nat, isEmpty = False\<rparr>,
                      Some \<lparr>key = 9, val = 90, isEmpty = False\<rparr>, None, None, None],
             size_ht = 7, elementCount_ht = 2\<rparr> 9 = Some 90"
    by (simp add: ht_eval cong: bind_e_weak_cong Let_weak_cong)
  have e: "slot_isEmpty (table (snd (remove_ht \<lparr>table = [None, None, Some \<lparr>key = 2, val = 20 :: nat, isEmpty = False\<rparr>,
                      Some \<lparr>key = 9, val = 90, isEmpty = False\<rparr>, None, None, None],
             size_ht = 7, elementCount_ht = 2\<rparr> 2)) ! (9 mod 7))"
    by (simp add: ht_eval cong: bind_e_weak_cong Let_weak_cong)
  have n: "(9 :: nat) \<noteq> 2" by simp
  show ?thesis
    using n g e lookup_survives_remove [of 9 2
        "\<lparr>table = [None, None, Some \<lparr>key = 2, val = 20 :: nat, isEmpty = False\<rparr>,
                      Some \<lparr>key = 9, val = 90, isEmpty = False\<rparr>, None, None, None],
             size_ht = 7, elementCount_ht = 2\<rparr>" 90]
    by blast
qed

end
